theory Spec2Isabelle
  imports Main "HOL-Library.Word" "HOL-Library.List_Lexorder"
begin

unbundle bit_operations_syntax

section \<open>Memory and key vectors (kvec.c)\<close>

text \<open>
  Bytes live in a flat memory: a map from addresses to \<open>u8\<close>. A \<open>struct kvec\<close> is the
  pair (\<open>iov_base\<close>, \<open>iov_len\<close>); a key vector is an array of \<open>SCOUTFS_KVEC_NR\<close> of
  them, here a list whose length is the parameter \<open>nr\<close> (the constant is declared in
  kvec.h, which is not among the sources). Every non-empty segment points to readable
  memory. Sizes and addresses are natural numbers: no \<open>size_t\<close> subtraction of the iterator
  underflows on the states the loops reach (see \<open>iter_inv\<close> and the lemmas after it), and a
  buffer never wraps around the address space.
\<close>

type_synonym u8 = "8 word"
type_synonym u32 = "32 word"
type_synonym u64 = "64 word"
type_synonym addr = nat
type_synonym heap = "addr \<Rightarrow> u8"

definition NULL :: addr where
  "NULL = 0"

record kvec =
  iov_base :: addr
  iov_len :: nat

text \<open>
  Modelled from the spec: \<open>scoutfs_kvec_length\<close> is declared in kvec.h; the spec gives
  Length(kvec) as the sum of the segment lengths.
\<close>

definition scoutfs_kvec_length :: "kvec list \<Rightarrow> nat" where
  "scoutfs_kvec_length kv = sum_list (map iov_len kv)"

subsection \<open>The iterator\<close>

text \<open>
  \<open>struct iter\<close>: \<open>iter_kvec\<close> is the pointer into the array, modelled as the part of the
  array from the pointed-to element on (\<open>iter->kvec++\<close> is \<open>tl\<close>, \<open>iter->kvec->iov_len\<close>
  reads the head); \<open>iter_i\<close> counts the elements passed.
\<close>

record iter =
  iter_kvec :: "kvec list"
  iter_count :: nat
  iter_off :: nat
  iter_i :: nat

text \<open>The \<open>while\<close> loop of \<open>iter_advance\<close>.\<close>

function iter_advance_loop :: "nat \<Rightarrow> iter \<Rightarrow> iter" where
  "iter_advance_loop nr it =
     (if iter_i it < nr \<and> iter_off it \<ge> iov_len (hd (iter_kvec it))
      then iter_advance_loop nr
             (it\<lparr>iter_off := iter_off it - iov_len (hd (iter_kvec it)),
                 iter_kvec := tl (iter_kvec it),
                 iter_i := iter_i it + 1\<rparr>)
      else it)"
  by pat_completeness auto
termination
  by (relation "measure (\<lambda>(nr, it). nr - iter_i it)") auto

declare iter_advance_loop.simps [simp del]

definition iter_advance :: "nat \<Rightarrow> iter \<Rightarrow> nat \<Rightarrow> iter" where
  "iter_advance nr it len =
     iter_advance_loop nr
       (it\<lparr>iter_off := iter_off it + len, iter_count := iter_count it - len\<rparr>)"

definition iter_init :: "nat \<Rightarrow> kvec list \<Rightarrow> iter" where
  "iter_init nr kv =
     iter_advance nr
       \<lparr>iter_kvec = kv, iter_count = scoutfs_kvec_length kv, iter_off = 0, iter_i = 0\<rparr> 0"

definition iter_ptr :: "nat \<Rightarrow> iter \<Rightarrow> addr" where
  "iter_ptr nr it =
     (if iter_i it < nr then iov_base (hd (iter_kvec it)) + iter_off it else NULL)"

definition iter_contig :: "nat \<Rightarrow> iter \<Rightarrow> nat" where
  "iter_contig nr it =
     (if iter_i it < nr then iov_len (hd (iter_kvec it)) - iter_off it else 0)"

subsection \<open>Comparison\<close>

text \<open>
  The kernel's \<open>memcmp\<close> (lib/string.c): the difference of the first pair of bytes that
  differ, read as unsigned chars, and 0 when the \<open>count\<close> bytes agree.
\<close>

fun memcmp :: "heap \<Rightarrow> addr \<Rightarrow> addr \<Rightarrow> nat \<Rightarrow> int" where
  "memcmp h cs ct 0 = 0"
| "memcmp h cs ct (Suc n) =
     (let res = uint (h cs) - uint (h ct)
      in if res \<noteq> 0 then res else memcmp h (cs + 1) (ct + 1) n)"

lemma iter_advance_loop_i_mono: "iter_i it \<le> iter_i (iter_advance_loop nr it)"
proof (induction nr it rule: iter_advance_loop.induct)
  case (1 nr it)
  show ?case
  proof (cases "iter_i it < nr \<and> iter_off it \<ge> iov_len (hd (iter_kvec it))")
    case True
    with 1 show ?thesis
      by (subst iter_advance_loop.simps) auto
  next
    case False
    then show ?thesis
      by (subst iter_advance_loop.simps) auto
  qed
qed

lemma iter_advance_loop_stop:
  "\<not> (iter_i it < nr \<and> iter_off it \<ge> iov_len (hd (iter_kvec it))) \<Longrightarrow>
   iter_advance_loop nr it = it"
  by (subst iter_advance_loop.simps) auto

lemma iter_advance_loop_step:
  "iter_i it < nr \<Longrightarrow> iter_off it \<ge> iov_len (hd (iter_kvec it)) \<Longrightarrow>
   iter_i it < iter_i (iter_advance_loop nr it)"
proof -
  assume a: "iter_i it < nr" "iter_off it \<ge> iov_len (hd (iter_kvec it))"
  let ?it' = "it\<lparr>iter_off := iter_off it - iov_len (hd (iter_kvec it)),
                 iter_kvec := tl (iter_kvec it), iter_i := iter_i it + 1\<rparr>"
  have "iter_advance_loop nr it = iter_advance_loop nr ?it'"
    using a by (subst iter_advance_loop.simps) simp
  moreover have "iter_i ?it' \<le> iter_i (iter_advance_loop nr ?it')"
    by (rule iter_advance_loop_i_mono)
  ultimately show ?thesis by simp
qed

text \<open>
  Advancing by a non-empty run that fits the current segment either moves to a later
  segment or leaves less of the current one: the measure of both copy and compare loops.
\<close>

lemma iter_advance_decreases:
  assumes "0 < len" "len \<le> iter_contig nr it"
  shows "nr - iter_i (iter_advance nr it len) < nr - iter_i it \<or>
         (nr - iter_i (iter_advance nr it len) = nr - iter_i it \<and>
          iov_len (hd (iter_kvec (iter_advance nr it len))) - iter_off (iter_advance nr it len)
            < iov_len (hd (iter_kvec it)) - iter_off it)"
proof -
  from assms have lt: "iter_i it < nr" and off: "iter_off it + len \<le> iov_len (hd (iter_kvec it))"
    by (auto simp: iter_contig_def split: if_splits)
  let ?it = "it\<lparr>iter_off := iter_off it + len, iter_count := iter_count it - len\<rparr>"
  show ?thesis
  proof (cases "iter_off it + len = iov_len (hd (iter_kvec it))")
    case True
    then have "iter_i ?it < iter_i (iter_advance_loop nr ?it)"
      using lt by (intro iter_advance_loop_step) auto
    then have "nr - iter_i (iter_advance_loop nr ?it) < nr - iter_i it"
      using lt by simp
    then show ?thesis by (simp add: iter_advance_def)
  next
    case False
    then have "iter_advance_loop nr ?it = ?it"
      using off by (intro iter_advance_loop_stop) auto
    then show ?thesis using off False assms by (simp add: iter_advance_def)
  qed
qed

text \<open>The \<open>while\<close> loop of \<open>scoutfs_kvec_memcmp\<close> and the return after it.\<close>

function kvec_memcmp_loop :: "nat \<Rightarrow> heap \<Rightarrow> iter \<Rightarrow> iter \<Rightarrow> int" where
  "kvec_memcmp_loop nr h a_iter b_iter =
     (let len = min (iter_contig nr a_iter) (iter_contig nr b_iter)
      in if len \<noteq> 0
         then (let ret = memcmp h (iter_ptr nr a_iter) (iter_ptr nr b_iter) len
               in if ret \<noteq> 0 then ret
                  else kvec_memcmp_loop nr h (iter_advance nr a_iter len)
                                             (iter_advance nr b_iter len))
         else (if iter_contig nr a_iter \<noteq> 0 then 1
               else if iter_contig nr b_iter \<noteq> 0 then - 1 else 0))"
  by pat_completeness auto
termination
proof (relation "measures [\<lambda>(nr, h, a, b). nr - iter_i a,
                           \<lambda>(nr, h, a, b). iov_len (hd (iter_kvec a)) - iter_off a]", goal_cases)
  case 1
  then show ?case by simp
next
  case (2 nr h a_iter b_iter len ret)
  then have "0 < len" "len \<le> iter_contig nr a_iter" by auto
  from iter_advance_decreases[OF this] show ?case by auto
qed

declare kvec_memcmp_loop.simps [simp del]

definition scoutfs_kvec_memcmp :: "nat \<Rightarrow> heap \<Rightarrow> kvec list \<Rightarrow> kvec list \<Rightarrow> int" where
  "scoutfs_kvec_memcmp nr h a b = kvec_memcmp_loop nr h (iter_init nr a) (iter_init nr b)"

definition scoutfs_kvec_cmp_overlap ::
  "nat \<Rightarrow> heap \<Rightarrow> kvec list \<Rightarrow> kvec list \<Rightarrow> kvec list \<Rightarrow> kvec list \<Rightarrow> int" where
  "scoutfs_kvec_cmp_overlap nr h a b c d =
     (if scoutfs_kvec_memcmp nr h b c < 0 then - 1
      else if scoutfs_kvec_memcmp nr h a d > 0 then 1 else 0)"

subsection \<open>The logical concatenation of a key vector\<close>

text \<open>
  The addresses a key vector covers, segment after segment, and the bytes found there.
  \<open>cmp_bytes\<close> is the comparison in the spec's words: lexicographic on the concatenated
  bytes, the shorter sequence first when one is a prefix of the other.
\<close>

definition seg_addrs :: "kvec \<Rightarrow> addr list" where
  "seg_addrs s = [iov_base s ..< iov_base s + iov_len s]"

definition kvec_addrs :: "kvec list \<Rightarrow> addr list" where
  "kvec_addrs kv = concat (map seg_addrs kv)"

definition kvec_bytes :: "heap \<Rightarrow> kvec list \<Rightarrow> u8 list" where
  "kvec_bytes h kv = map h (kvec_addrs kv)"

fun cmp_bytes :: "u8 list \<Rightarrow> u8 list \<Rightarrow> int" where
  "cmp_bytes [] [] = 0"
| "cmp_bytes (x # xs) [] = 1"
| "cmp_bytes [] (y # ys) = - 1"
| "cmp_bytes (x # xs) (y # ys) =
     (if x \<noteq> y then uint x - uint y else cmp_bytes xs ys)"

text \<open>What an iterator has still to visit, and the invariant its operations keep.\<close>

definition iter_addrs :: "iter \<Rightarrow> addr list" where
  "iter_addrs it = drop (iter_off it) (kvec_addrs (iter_kvec it))"

definition iter_inv :: "nat \<Rightarrow> iter \<Rightarrow> bool" where
  "iter_inv nr it \<longleftrightarrow>
     length (iter_kvec it) + iter_i it = nr \<and>
     (iter_i it < nr \<longrightarrow> iter_off it < iov_len (hd (iter_kvec it))) \<and>
     iter_count it = length (iter_addrs it)"

text \<open>A closed range of keys in comparison order.\<close>

definition kvec_in_range :: "nat \<Rightarrow> heap \<Rightarrow> kvec list \<Rightarrow> kvec list \<Rightarrow> kvec list \<Rightarrow> bool" where
  "kvec_in_range nr h a b k \<longleftrightarrow>
     scoutfs_kvec_memcmp nr h a k \<le> 0 \<and> scoutfs_kvec_memcmp nr h k b \<le> 0"

text \<open>A memory holding "ab", "c", "a" and "bc" in four separate buffers.\<close>

definition ex_heap :: heap where
  "ex_heap = (\<lambda>_. 0)(10 := 97, 11 := 98, 20 := 99, 30 := 97, 40 := 98, 41 := 99)"

lemma length_seg_addrs [simp]: "length (seg_addrs s) = iov_len s"
  by (simp add: seg_addrs_def)

lemma kvec_addrs_Nil [simp]: "kvec_addrs [] = []"
  by (simp add: kvec_addrs_def)

lemma kvec_addrs_Cons [simp]: "kvec_addrs (s # kv) = seg_addrs s @ kvec_addrs kv"
  by (simp add: kvec_addrs_def)

lemma length_kvec_addrs: "length (kvec_addrs kv) = scoutfs_kvec_length kv"
  by (induction kv) (simp_all add: scoutfs_kvec_length_def)

lemma iter_advance_loop_addrs:
  "length (iter_kvec it) + iter_i it = nr \<Longrightarrow> iter_count it = length (iter_addrs it) \<Longrightarrow>
   iter_addrs (iter_advance_loop nr it) = iter_addrs it \<and> iter_inv nr (iter_advance_loop nr it)"
proof (induction nr it rule: iter_advance_loop.induct)
  case (1 nr it)
  show ?case
  proof (cases "iter_i it < nr \<and> iter_off it \<ge> iov_len (hd (iter_kvec it))")
    case True
    let ?it' = "it\<lparr>iter_off := iter_off it - iov_len (hd (iter_kvec it)),
                   iter_kvec := tl (iter_kvec it), iter_i := iter_i it + 1\<rparr>"
    from True "1.prems" obtain s rest where kv: "iter_kvec it = s # rest"
      by (cases "iter_kvec it") auto
    have unf: "iter_advance_loop nr it = iter_advance_loop nr ?it'"
      using True by (subst iter_advance_loop.simps) simp
    have len': "length (iter_kvec ?it') + iter_i ?it' = nr"
      using "1.prems" kv by simp
    have a: "iter_addrs ?it' = iter_addrs it"
      using True kv by (simp add: iter_addrs_def)
    then have c: "iter_count ?it' = length (iter_addrs ?it')"
      using "1.prems"(2) by simp
    from "1.IH"[OF True len' c] unf a show ?thesis by simp
  next
    case False
    then have "iter_advance_loop nr it = it"
      by (rule iter_advance_loop_stop)
    with False "1.prems" show ?thesis
      by (auto simp: iter_inv_def)
  qed
qed

lemma iter_advance_addrs:
  assumes "iter_inv nr it"
  shows "iter_addrs (iter_advance nr it len) = drop len (iter_addrs it)"
    and "iter_inv nr (iter_advance nr it len)"
proof -
  let ?it = "it\<lparr>iter_off := iter_off it + len, iter_count := iter_count it - len\<rparr>"
  have l: "length (iter_kvec ?it) + iter_i ?it = nr"
    using assms by (simp add: iter_inv_def)
  have a: "iter_addrs ?it = drop len (iter_addrs it)"
    by (simp add: iter_addrs_def add.commute)
  have c: "iter_count ?it = length (iter_addrs ?it)"
    unfolding a using assms by (simp add: iter_inv_def)
  from iter_advance_loop_addrs[OF l c] a
  show "iter_addrs (iter_advance nr it len) = drop len (iter_addrs it)"
    and "iter_inv nr (iter_advance nr it len)"
    by (simp_all add: iter_advance_def)
qed

lemma iter_init_addrs:
  assumes "length kv = nr"
  shows "iter_addrs (iter_init nr kv) = kvec_addrs kv" and "iter_inv nr (iter_init nr kv)"
proof -
  let ?it = "\<lparr>iter_kvec = kv, iter_count = scoutfs_kvec_length kv, iter_off = 0, iter_i = 0\<rparr>"
  let ?it' = "?it\<lparr>iter_off := iter_off ?it + 0, iter_count := iter_count ?it - 0\<rparr>"
  have l: "length (iter_kvec ?it') + iter_i ?it' = nr"
    using assms by simp
  have a: "iter_addrs ?it' = kvec_addrs kv"
    by (simp add: iter_addrs_def)
  have c: "iter_count ?it' = length (iter_addrs ?it')"
    unfolding a by (simp add: length_kvec_addrs)
  from iter_advance_loop_addrs[OF l c] a
  show "iter_addrs (iter_init nr kv) = kvec_addrs kv" and "iter_inv nr (iter_init nr kv)"
    by (simp_all add: iter_init_def iter_advance_def)
qed

text \<open>
  Under the invariant \<open>iter_off\<close> stays below the current segment's length, so the
  subtraction in \<open>iter_contig\<close> never underflows, and the next \<open>iter_contig\<close> addresses to
  visit are the contiguous run at \<open>iter_ptr\<close>.
\<close>

lemma iter_contig_addrs:
  assumes "iter_inv nr it" "len \<le> iter_contig nr it"
  shows "take len (iter_addrs it) = [iter_ptr nr it ..< iter_ptr nr it + len]"
proof (cases "iter_i it < nr")
  case True
  with assms obtain s rest where kv: "iter_kvec it = s # rest"
    by (cases "iter_kvec it") (auto simp: iter_inv_def)
  from assms True kv have off: "iter_off it + len \<le> iov_len s"
    by (auto simp: iter_contig_def iter_inv_def)
  have "take len (iter_addrs it) = take len (drop (iter_off it) (seg_addrs s))"
    using off kv by (simp add: iter_addrs_def)
  also have "\<dots> = [iov_base s + iter_off it ..< iov_base s + iter_off it + len]"
    using off by (simp add: seg_addrs_def take_drop add.commute drop_upt take_upt)
  finally show ?thesis using True kv by (simp add: iter_ptr_def)
next
  case False
  with assms show ?thesis by (simp add: iter_contig_def)
qed

lemma iter_contig_zero_iff:
  assumes "iter_inv nr it"
  shows "iter_contig nr it = 0 \<longleftrightarrow> iter_addrs it = []"
proof (cases "iter_i it < nr")
  case True
  with assms obtain s rest where kv: "iter_kvec it = s # rest"
    by (cases "iter_kvec it") (auto simp: iter_inv_def)
  with assms True show ?thesis
    by (auto simp: iter_contig_def iter_inv_def iter_addrs_def)
next
  case False
  with assms show ?thesis
    by (auto simp: iter_contig_def iter_inv_def iter_addrs_def)
qed

lemma iter_contig_le_length:
  assumes "iter_inv nr it"
  shows "iter_contig nr it \<le> length (iter_addrs it)"
proof (cases "iter_i it < nr")
  case True
  with assms obtain s rest where kv: "iter_kvec it = s # rest"
    by (cases "iter_kvec it") (auto simp: iter_inv_def)
  with assms True show ?thesis
    by (auto simp: iter_contig_def iter_inv_def iter_addrs_def)
next
  case False
  then show ?thesis by (simp add: iter_contig_def)
qed

text \<open>
  The loops advance by at most \<open>iter_contig\<close>, so \<open>iter_count\<close>, which the code only writes,
  never underflows either.
\<close>

lemma iter_count_no_underflow:
  "iter_inv nr it \<Longrightarrow> len \<le> iter_contig nr it \<Longrightarrow> len \<le> iter_count it"
  using iter_contig_le_length[of nr it] by (simp add: iter_inv_def)

lemma memcmp_cmp_bytes:
  "memcmp h cs ct n = cmp_bytes (map h [cs ..< cs + n]) (map h [ct ..< ct + n])"
proof (induction n arbitrary: cs ct)
  case 0
  then show ?case by simp
next
  case (Suc n)
  have e1: "[cs ..< cs + Suc n] = cs # [cs + 1 ..< (cs + 1) + n]"
    and e2: "[ct ..< ct + Suc n] = ct # [ct + 1 ..< (ct + 1) + n]"
    by (simp_all add: upt_conv_Cons)
  have ne: "uint (h cs) - uint (h ct) \<noteq> 0 \<longleftrightarrow> h cs \<noteq> h ct"
    by (simp add: word_uint_eq_iff)
  show ?case
    unfolding memcmp.simps e1 e2 list.map cmp_bytes.simps Let_def ne Suc.IH[of "cs + 1" "ct + 1"]
    by (rule refl)
qed

lemma cmp_bytes_append:
  "length p = length q \<Longrightarrow>
   cmp_bytes (p @ xs) (q @ ys) = (if cmp_bytes p q \<noteq> 0 then cmp_bytes p q else cmp_bytes xs ys)"
proof (induction p q rule: list_induct2)
  case Nil
  then show ?case by simp
next
  case (Cons x p y q)
  then show ?case by (auto simp: word_uint_eq_iff)
qed

lemma cmp_bytes_split:
  assumes "len \<le> length xs" "len \<le> length ys"
  shows "cmp_bytes xs ys =
     (if cmp_bytes (take len xs) (take len ys) \<noteq> 0 then cmp_bytes (take len xs) (take len ys)
      else cmp_bytes (drop len xs) (drop len ys))"
proof -
  have "cmp_bytes (take len xs @ drop len xs) (take len ys @ drop len ys) =
     (if cmp_bytes (take len xs) (take len ys) \<noteq> 0 then cmp_bytes (take len xs) (take len ys)
      else cmp_bytes (drop len xs) (drop len ys))"
    using assms by (intro cmp_bytes_append) simp
  then show ?thesis by simp
qed

lemma cmp_bytes_Nil_left: "cmp_bytes [] ys = (if ys = [] then 0 else - 1)"
  by (cases ys) simp_all

lemma cmp_bytes_Nil_right: "cmp_bytes xs [] = (if xs = [] then 0 else 1)"
  by (cases xs) simp_all

text \<open>The loop compares what the two iterators have left, as \<open>cmp_bytes\<close> does.\<close>

lemma kvec_memcmp_loop_cmp_bytes:
  "iter_inv nr a \<Longrightarrow> iter_inv nr b \<Longrightarrow>
   kvec_memcmp_loop nr h a b = cmp_bytes (map h (iter_addrs a)) (map h (iter_addrs b))"
proof (induction nr h a b rule: kvec_memcmp_loop.induct)
  case (1 nr h a b)
  define len where "len = min (iter_contig nr a) (iter_contig nr b)"
  show ?case
  proof (cases "len = 0")
    case True
    then have "iter_contig nr a = 0 \<or> iter_contig nr b = 0"
      by (auto simp: len_def min_def split: if_splits)
    then show ?thesis
      using iter_contig_zero_iff[OF "1.prems"(1)] iter_contig_zero_iff[OF "1.prems"(2)]
      by (subst kvec_memcmp_loop.simps)
         (auto simp: Let_def cmp_bytes_Nil_left cmp_bytes_Nil_right)
  next
    case False
    have la: "len \<le> iter_contig nr a" and lb: "len \<le> iter_contig nr b"
      by (simp_all add: len_def)
    have ta: "take len (iter_addrs a) = [iter_ptr nr a ..< iter_ptr nr a + len]"
      by (rule iter_contig_addrs[OF "1.prems"(1) la])
    have tb: "take len (iter_addrs b) = [iter_ptr nr b ..< iter_ptr nr b + len]"
      by (rule iter_contig_addrs[OF "1.prems"(2) lb])
    define ret where "ret = memcmp h (iter_ptr nr a) (iter_ptr nr b) len"
    have ret: "ret = cmp_bytes (take len (map h (iter_addrs a))) (take len (map h (iter_addrs b)))"
      by (simp add: ret_def memcmp_cmp_bytes take_map ta tb)
    have lla: "len \<le> length (map h (iter_addrs a))"
      using la iter_contig_le_length[OF "1.prems"(1)] by simp
    have llb: "len \<le> length (map h (iter_addrs b))"
      using lb iter_contig_le_length[OF "1.prems"(2)] by simp
    have unf: "kvec_memcmp_loop nr h a b =
        (if ret \<noteq> 0 then ret
         else kvec_memcmp_loop nr h (iter_advance nr a len) (iter_advance nr b len))"
      using False by (subst kvec_memcmp_loop.simps) (simp add: Let_def len_def ret_def)
    show ?thesis
    proof (cases "ret = 0")
      case True
      have "kvec_memcmp_loop nr h (iter_advance nr a len) (iter_advance nr b len) =
            cmp_bytes (map h (iter_addrs (iter_advance nr a len)))
                      (map h (iter_addrs (iter_advance nr b len)))"
        using False True
        by (intro "1.IH"[OF len_def _ ret_def])
           (simp_all add: iter_advance_addrs "1.prems")
      then show ?thesis
        using True unf ret cmp_bytes_split[OF lla llb]
        by (simp add: iter_advance_addrs "1.prems" drop_map)
    next
      case False
      then show ?thesis
        using unf ret cmp_bytes_split[OF lla llb] by simp
    qed
  qed
qed

lemma scoutfs_kvec_memcmp_cmp_bytes:
  "length a = nr \<Longrightarrow> length b = nr \<Longrightarrow>
   scoutfs_kvec_memcmp nr h a b = cmp_bytes (kvec_bytes h a) (kvec_bytes h b)"
  by (simp add: scoutfs_kvec_memcmp_def kvec_memcmp_loop_cmp_bytes iter_init_addrs kvec_bytes_def)

lemma cmp_bytes_prefix_less: "cmp_bytes xs (xs @ z # zs) = - 1"
  by (induction xs) simp_all

lemma cmp_bytes_prefix_greater: "cmp_bytes (xs @ z # zs) xs = 1"
  by (induction xs) simp_all

lemma cmp_bytes_refl: "cmp_bytes xs xs = 0"
  by (induction xs) simp_all

text \<open>The sign of \<open>cmp_bytes\<close> is the lexicographic order on byte lists.\<close>

lemma cmp_bytes_less_iff: "cmp_bytes xs ys < 0 \<longleftrightarrow> xs < ys"
  by (induction xs ys rule: cmp_bytes.induct) (auto simp: word_less_def)

lemma cmp_bytes_greater_iff: "cmp_bytes xs ys > 0 \<longleftrightarrow> ys < xs"
  by (induction xs ys rule: cmp_bytes.induct) (auto simp: word_less_def word_uint_eq_iff)

lemma cmp_bytes_le_iff: "cmp_bytes xs ys \<le> 0 \<longleftrightarrow> xs \<le> ys"
  using cmp_bytes_greater_iff[of xs ys] by auto

lemma strict_prefix_split:
  assumes "length xs < length ys" "take (length xs) ys = xs"
  obtains z zs where "ys = xs @ z # zs"
proof -
  have "ys = xs @ drop (length xs) ys"
    using assms(2) by (metis append_take_drop_id)
  moreover from assms(1) have "drop (length xs) ys \<noteq> []" by simp
  ultimately show ?thesis using that by (cases "drop (length xs) ys") auto
qed

lemmas kvec_eval =
  scoutfs_kvec_memcmp_def iter_init_def iter_advance_def scoutfs_kvec_length_def
  iter_advance_loop.simps kvec_memcmp_loop.simps iter_contig_def iter_ptr_def Let_def

lemmas kvec_bytes_eval =
  kvec_bytes_def kvec_addrs_def seg_addrs_def upt_conv_Cons

section \<open>Properties of the key vector engine\<close>

text \<open>
  C3 (prefix law). When the concatenated bytes of \<open>a\<close> are a strict prefix of the
  concatenated bytes of \<open>b\<close> (\<open>a\<close> is shorter and \<open>b\<close> starts with all of \<open>a\<close>),
  \<open>scoutfs_kvec_memcmp a b\<close> is \<open>-1\<close> and \<open>scoutfs_kvec_memcmp b a\<close> is \<open>1\<close>: the shorter
  vector sorts first.
\<close>

theorem kvec_memcmp_prefix:
  assumes "length a = nr" "length b = nr"
    and "length (kvec_bytes h a) < length (kvec_bytes h b)"
    and "take (length (kvec_bytes h a)) (kvec_bytes h b) = kvec_bytes h a"
  shows "scoutfs_kvec_memcmp nr h a b = - 1 \<and> scoutfs_kvec_memcmp nr h b a = 1"
proof -
  from assms(3,4) obtain z zs where "kvec_bytes h b = kvec_bytes h a @ z # zs"
    by (rule strict_prefix_split)
  then show ?thesis
    using assms(1,2)
    by (simp add: scoutfs_kvec_memcmp_cmp_bytes cmp_bytes_prefix_less cmp_bytes_prefix_greater)
qed

text \<open>The vector ["a","b"] against ["a","bc"].\<close>

theorem kvec_memcmp_prefix_witness:
  "scoutfs_kvec_memcmp 2 ex_heap
      [\<lparr>iov_base = 10, iov_len = 1\<rparr>, \<lparr>iov_base = 11, iov_len = 1\<rparr>]
      [\<lparr>iov_base = 30, iov_len = 1\<rparr>, \<lparr>iov_base = 40, iov_len = 2\<rparr>] = - 1 \<and>
   scoutfs_kvec_memcmp 2 ex_heap
      [\<lparr>iov_base = 30, iov_len = 1\<rparr>, \<lparr>iov_base = 40, iov_len = 2\<rparr>]
      [\<lparr>iov_base = 10, iov_len = 1\<rparr>, \<lparr>iov_base = 11, iov_len = 1\<rparr>] = 1"
  by (rule kvec_memcmp_prefix) (simp_all add: kvec_bytes_eval ex_heap_def)

text \<open>
  C4 (segmentation does not matter). Two key vectors whose segments concatenate to the
  same bytes compare equal, and the result of \<open>scoutfs_kvec_memcmp\<close> is a function of the
  two concatenations alone: vectors (in any memory, with any split into segments) that
  have the same concatenations give the same result.
\<close>

theorem kvec_memcmp_concat_only:
  assumes "length a = nr" "length b = nr" "length a' = nr'" "length b' = nr'"
  shows "(kvec_bytes h a = kvec_bytes h b \<longrightarrow> scoutfs_kvec_memcmp nr h a b = 0) \<and>
         (kvec_bytes h a = kvec_bytes h' a' \<and> kvec_bytes h b = kvec_bytes h' b' \<longrightarrow>
            scoutfs_kvec_memcmp nr h a b = scoutfs_kvec_memcmp nr' h' a' b')"
  using assms by (simp add: scoutfs_kvec_memcmp_cmp_bytes cmp_bytes_refl)

text \<open>The spec's example: ["ab","c"] against ["a","bc"].\<close>

theorem kvec_memcmp_concat_only_witness:
  "scoutfs_kvec_memcmp 2 ex_heap
      [\<lparr>iov_base = 10, iov_len = 2\<rparr>, \<lparr>iov_base = 20, iov_len = 1\<rparr>]
      [\<lparr>iov_base = 30, iov_len = 1\<rparr>, \<lparr>iov_base = 40, iov_len = 2\<rparr>] = 0"
proof -
  let ?a = "[\<lparr>iov_base = 10, iov_len = 2\<rparr>, \<lparr>iov_base = 20, iov_len = 1\<rparr>]"
  let ?b = "[\<lparr>iov_base = 30, iov_len = 1\<rparr>, \<lparr>iov_base = 40, iov_len = 2\<rparr>]"
  have l: "length ?a = 2" "length ?b = 2" by simp_all
  have e: "kvec_bytes ex_heap ?a = kvec_bytes ex_heap ?b"
    by (simp add: kvec_bytes_eval ex_heap_def)
  from kvec_memcmp_concat_only[OF l l, of ex_heap ex_heap] e show ?thesis by blast
qed

text \<open>
  C5 (range overlap). \<open>scoutfs_kvec_cmp_overlap a b c d\<close> is \<open>-1\<close> when \<open>b\<close> compares below
  \<open>c\<close>, else \<open>1\<close> when \<open>a\<close> compares above \<open>d\<close>, else \<open>0\<close>. For well-formed ranges
  (\<open>a \<le> b\<close> and \<open>c \<le> d\<close> in comparison order) it is \<open>0\<close> exactly when some key lies in
  both \<open>[a,b]\<close> and \<open>[c,d]\<close> (a key vector in memory or, equivalently, any byte sequence),
  \<open>-1\<close> exactly when every key of \<open>[a,b]\<close> sorts before every
  key of \<open>[c,d]\<close>, and \<open>1\<close> exactly when every key of \<open>[a,b]\<close> sorts after every key of
  \<open>[c,d]\<close>.
\<close>

theorem kvec_cmp_overlap_ranges:
  assumes "length a = nr" "length b = nr" "length c = nr" "length d = nr"
  shows "scoutfs_kvec_cmp_overlap nr h a b c d =
           (if scoutfs_kvec_memcmp nr h b c < 0 then - 1
            else if scoutfs_kvec_memcmp nr h a d > 0 then 1 else 0) \<and>
         (scoutfs_kvec_memcmp nr h a b \<le> 0 \<and> scoutfs_kvec_memcmp nr h c d \<le> 0 \<longrightarrow>
            (scoutfs_kvec_cmp_overlap nr h a b c d = 0 \<longleftrightarrow>
               (\<exists>k. length k = nr \<and> kvec_in_range nr h a b k \<and> kvec_in_range nr h c d k)) \<and>
            (scoutfs_kvec_cmp_overlap nr h a b c d = 0 \<longleftrightarrow>
               (\<exists>ks. cmp_bytes (kvec_bytes h a) ks \<le> 0 \<and> cmp_bytes ks (kvec_bytes h b) \<le> 0 \<and>
                     cmp_bytes (kvec_bytes h c) ks \<le> 0 \<and> cmp_bytes ks (kvec_bytes h d) \<le> 0)) \<and>
            (scoutfs_kvec_cmp_overlap nr h a b c d = - 1 \<longleftrightarrow>
               (\<forall>k1 k2. length k1 = nr \<and> length k2 = nr \<and>
                  kvec_in_range nr h a b k1 \<and> kvec_in_range nr h c d k2 \<longrightarrow>
                  scoutfs_kvec_memcmp nr h k1 k2 < 0)) \<and>
            (scoutfs_kvec_cmp_overlap nr h a b c d = 1 \<longleftrightarrow>
               (\<forall>k1 k2. length k1 = nr \<and> length k2 = nr \<and>
                  kvec_in_range nr h a b k1 \<and> kvec_in_range nr h c d k2 \<longrightarrow>
                  scoutfs_kvec_memcmp nr h k1 k2 > 0)))"
proof -
  define A B C D where "A = kvec_bytes h a" and "B = kvec_bytes h b"
    and "C = kvec_bytes h c" and "D = kvec_bytes h d"
  have cmp: "\<And>x y. length x = nr \<Longrightarrow> length y = nr \<Longrightarrow>
      scoutfs_kvec_memcmp nr h x y = cmp_bytes (kvec_bytes h x) (kvec_bytes h y)"
    by (rule scoutfs_kvec_memcmp_cmp_bytes)
  have ov: "scoutfs_kvec_cmp_overlap nr h a b c d =
      (if B < C then - 1 else if D < A then 1 else 0)"
    using assms
    by (simp add: scoutfs_kvec_cmp_overlap_def cmp cmp_bytes_less_iff cmp_bytes_greater_iff
        A_def B_def C_def D_def)
  have rng: "\<And>x y k. length x = nr \<Longrightarrow> length y = nr \<Longrightarrow> length k = nr \<Longrightarrow>
      kvec_in_range nr h x y k \<longleftrightarrow> kvec_bytes h x \<le> kvec_bytes h k \<and> kvec_bytes h k \<le> kvec_bytes h y"
    by (simp add: kvec_in_range_def cmp cmp_bytes_le_iff)
  show ?thesis
  proof (intro conjI impI)
    show "scoutfs_kvec_cmp_overlap nr h a b c d =
           (if scoutfs_kvec_memcmp nr h b c < 0 then - 1
            else if scoutfs_kvec_memcmp nr h a d > 0 then 1 else 0)"
      by (simp add: scoutfs_kvec_cmp_overlap_def)
  next
    assume wf: "scoutfs_kvec_memcmp nr h a b \<le> 0 \<and> scoutfs_kvec_memcmp nr h c d \<le> 0"
    then have ab: "A \<le> B" and cd: "C \<le> D"
      using assms by (simp_all add: cmp cmp_bytes_le_iff A_def B_def C_def D_def)
    show "scoutfs_kvec_cmp_overlap nr h a b c d = 0 \<longleftrightarrow>
               (\<exists>k. length k = nr \<and> kvec_in_range nr h a b k \<and> kvec_in_range nr h c d k)"
    proof
      assume "scoutfs_kvec_cmp_overlap nr h a b c d = 0"
      then have nb: "C \<le> B" and na: "A \<le> D"
        using ov by (auto split: if_splits)
      show "\<exists>k. length k = nr \<and> kvec_in_range nr h a b k \<and> kvec_in_range nr h c d k"
      proof (cases "A \<le> C")
        case True
        then have "kvec_in_range nr h a b c \<and> kvec_in_range nr h c d c"
          using assms nb cd by (simp add: rng A_def B_def C_def D_def)
        then show ?thesis using assms(3) by blast
      next
        case False
        then have "kvec_in_range nr h a b a \<and> kvec_in_range nr h c d a"
          using assms ab na by (simp add: rng A_def B_def C_def D_def)
        then show ?thesis using assms(1) by blast
      qed
    next
      assume "\<exists>k. length k = nr \<and> kvec_in_range nr h a b k \<and> kvec_in_range nr h c d k"
      then obtain k where k: "length k = nr" "kvec_in_range nr h a b k" "kvec_in_range nr h c d k"
        by blast
      then have "A \<le> kvec_bytes h k" "kvec_bytes h k \<le> B" "C \<le> kvec_bytes h k" "kvec_bytes h k \<le> D"
        using rng[OF assms(1,2), of k] rng[OF assms(3,4), of k]
        by (simp_all add: A_def B_def C_def D_def)
      then have "\<not> B < C" "\<not> D < A" by auto
      then show "scoutfs_kvec_cmp_overlap nr h a b c d = 0"
        using ov by simp
    qed
    show "scoutfs_kvec_cmp_overlap nr h a b c d = 0 \<longleftrightarrow>
               (\<exists>ks. cmp_bytes (kvec_bytes h a) ks \<le> 0 \<and> cmp_bytes ks (kvec_bytes h b) \<le> 0 \<and>
                     cmp_bytes (kvec_bytes h c) ks \<le> 0 \<and> cmp_bytes ks (kvec_bytes h d) \<le> 0)"
    proof
      assume "scoutfs_kvec_cmp_overlap nr h a b c d = 0"
      then have nb: "C \<le> B" and na: "A \<le> D"
        using ov by (auto split: if_splits)
      have "A \<le> max A C \<and> max A C \<le> B \<and> C \<le> max A C \<and> max A C \<le> D"
        using ab cd nb na by (auto simp: max_def)
      then show "\<exists>ks. cmp_bytes (kvec_bytes h a) ks \<le> 0 \<and> cmp_bytes ks (kvec_bytes h b) \<le> 0 \<and>
                     cmp_bytes (kvec_bytes h c) ks \<le> 0 \<and> cmp_bytes ks (kvec_bytes h d) \<le> 0"
        unfolding cmp_bytes_le_iff A_def B_def C_def D_def by (rule exI)
    next
      assume "\<exists>ks. cmp_bytes (kvec_bytes h a) ks \<le> 0 \<and> cmp_bytes ks (kvec_bytes h b) \<le> 0 \<and>
                     cmp_bytes (kvec_bytes h c) ks \<le> 0 \<and> cmp_bytes ks (kvec_bytes h d) \<le> 0"
      then obtain ks where "A \<le> ks" "ks \<le> B" "C \<le> ks" "ks \<le> D"
        unfolding cmp_bytes_le_iff A_def B_def C_def D_def by blast
      then have "\<not> B < C" "\<not> D < A" by auto
      then show "scoutfs_kvec_cmp_overlap nr h a b c d = 0"
        using ov by simp
    qed
    have inb: "kvec_in_range nr h a b b" "kvec_in_range nr h a b a"
      and inc: "kvec_in_range nr h c d c" "kvec_in_range nr h c d d"
      using assms ab cd by (simp_all add: rng A_def B_def C_def D_def)
    show "scoutfs_kvec_cmp_overlap nr h a b c d = - 1 \<longleftrightarrow>
               (\<forall>k1 k2. length k1 = nr \<and> length k2 = nr \<and>
                  kvec_in_range nr h a b k1 \<and> kvec_in_range nr h c d k2 \<longrightarrow>
                  scoutfs_kvec_memcmp nr h k1 k2 < 0)"
    proof
      assume "scoutfs_kvec_cmp_overlap nr h a b c d = - 1"
      then have bc: "B < C" using ov by (auto split: if_splits)
      show "\<forall>k1 k2. length k1 = nr \<and> length k2 = nr \<and>
                  kvec_in_range nr h a b k1 \<and> kvec_in_range nr h c d k2 \<longrightarrow>
                  scoutfs_kvec_memcmp nr h k1 k2 < 0"
      proof (intro allI impI)
        fix k1 k2
        assume k: "length k1 = nr \<and> length k2 = nr \<and>
                  kvec_in_range nr h a b k1 \<and> kvec_in_range nr h c d k2"
        then have "kvec_bytes h k1 \<le> B" "C \<le> kvec_bytes h k2"
          using rng[OF assms(1,2), of k1] rng[OF assms(3,4), of k2]
          by (simp_all add: B_def C_def)
        with bc have "kvec_bytes h k1 < kvec_bytes h k2" by order
        then show "scoutfs_kvec_memcmp nr h k1 k2 < 0"
          using k by (simp add: cmp cmp_bytes_less_iff)
      qed
    next
      assume "\<forall>k1 k2. length k1 = nr \<and> length k2 = nr \<and>
                  kvec_in_range nr h a b k1 \<and> kvec_in_range nr h c d k2 \<longrightarrow>
                  scoutfs_kvec_memcmp nr h k1 k2 < 0"
      then have "scoutfs_kvec_memcmp nr h b c < 0"
        using inb inc assms by blast
      then show "scoutfs_kvec_cmp_overlap nr h a b c d = - 1"
        by (simp add: scoutfs_kvec_cmp_overlap_def)
    qed
    show "scoutfs_kvec_cmp_overlap nr h a b c d = 1 \<longleftrightarrow>
               (\<forall>k1 k2. length k1 = nr \<and> length k2 = nr \<and>
                  kvec_in_range nr h a b k1 \<and> kvec_in_range nr h c d k2 \<longrightarrow>
                  scoutfs_kvec_memcmp nr h k1 k2 > 0)"
    proof
      assume "scoutfs_kvec_cmp_overlap nr h a b c d = 1"
      then have da: "D < A" using ov by (auto split: if_splits)
      show "\<forall>k1 k2. length k1 = nr \<and> length k2 = nr \<and>
                  kvec_in_range nr h a b k1 \<and> kvec_in_range nr h c d k2 \<longrightarrow>
                  scoutfs_kvec_memcmp nr h k1 k2 > 0"
      proof (intro allI impI)
        fix k1 k2
        assume k: "length k1 = nr \<and> length k2 = nr \<and>
                  kvec_in_range nr h a b k1 \<and> kvec_in_range nr h c d k2"
        then have "A \<le> kvec_bytes h k1" "kvec_bytes h k2 \<le> D"
          using rng[OF assms(1,2), of k1] rng[OF assms(3,4), of k2]
          by (simp_all add: A_def D_def)
        with da have "kvec_bytes h k2 < kvec_bytes h k1" by order
        then show "scoutfs_kvec_memcmp nr h k1 k2 > 0"
          using k by (simp add: cmp cmp_bytes_greater_iff)
      qed
    next
      assume "\<forall>k1 k2. length k1 = nr \<and> length k2 = nr \<and>
                  kvec_in_range nr h a b k1 \<and> kvec_in_range nr h c d k2 \<longrightarrow>
                  scoutfs_kvec_memcmp nr h k1 k2 > 0"
      then have "scoutfs_kvec_memcmp nr h a d > 0"
        using inb inc assms by blast
      then have "D < A" using assms by (simp add: cmp cmp_bytes_greater_iff A_def D_def)
      with ab cd have "\<not> B < C" by order
      with \<open>D < A\<close> show "scoutfs_kvec_cmp_overlap nr h a b c d = 1"
        using ov by simp
    qed
  qed
qed

text \<open>The ranges ["a","b"] and ["b","c"] share the key "b".\<close>

theorem kvec_cmp_overlap_ranges_witness:
  "scoutfs_kvec_cmp_overlap 1 ex_heap
      [\<lparr>iov_base = 10, iov_len = 1\<rparr>] [\<lparr>iov_base = 11, iov_len = 1\<rparr>]
      [\<lparr>iov_base = 40, iov_len = 1\<rparr>] [\<lparr>iov_base = 20, iov_len = 1\<rparr>] = 0 \<and>
   (\<exists>k. length k = 1 \<and>
      kvec_in_range 1 ex_heap [\<lparr>iov_base = 10, iov_len = 1\<rparr>] [\<lparr>iov_base = 11, iov_len = 1\<rparr>] k \<and>
      kvec_in_range 1 ex_heap [\<lparr>iov_base = 40, iov_len = 1\<rparr>] [\<lparr>iov_base = 20, iov_len = 1\<rparr>] k)"
proof -
  let ?a = "[\<lparr>iov_base = 10, iov_len = 1\<rparr>]" and ?b = "[\<lparr>iov_base = 11, iov_len = 1\<rparr>]"
  let ?c = "[\<lparr>iov_base = 40, iov_len = 1\<rparr>]" and ?d = "[\<lparr>iov_base = 20, iov_len = 1\<rparr>]"
  have l: "length ?a = 1" "length ?b = 1" "length ?c = 1" "length ?d = 1"
    by simp_all
  have wf: "scoutfs_kvec_memcmp 1 ex_heap ?a ?b \<le> 0 \<and> scoutfs_kvec_memcmp 1 ex_heap ?c ?d \<le> 0"
    by (simp add: kvec_eval ex_heap_def)
  have ov: "scoutfs_kvec_cmp_overlap 1 ex_heap ?a ?b ?c ?d = 0"
    by (simp add: scoutfs_kvec_cmp_overlap_def kvec_eval ex_heap_def)
  from kvec_cmp_overlap_ranges[OF l, of ex_heap] wf ov show ?thesis
    by blast
qed

section \<open>Copying and flattening (kvec.c)\<close>

text \<open>
  The error codes the C code returns as negative \<open>int\<close>s. A function returning 0 or
  \<open>-E\<close> returns \<open>Inr ()\<close> or \<open>Inl E\<close> here, next to the state it leaves.
\<close>

datatype errno = EINVAL | ENOMEM | EIO

text \<open>
  The conversion of a \<open>size_t\<close> to \<open>int\<close> (an \<open>(int)\<close> cast, or the return of a
  \<open>size_t\<close> from a function declared \<open>int\<close>): the low 32 bits, read as two's complement.
\<close>

definition size_t_to_int :: "nat \<Rightarrow> int" where
  "size_t_to_int n = sint (word_of_nat n :: 32 word)"

text \<open>The kernel's \<open>memcpy\<close>: \<open>count\<close> bytes, copied one by one from the lowest address.\<close>

fun memcpy :: "heap \<Rightarrow> addr \<Rightarrow> addr \<Rightarrow> nat \<Rightarrow> heap" where
  "memcpy h dest src 0 = h"
| "memcpy h dest src (Suc n) = memcpy (h(dest := h src)) (dest + 1) (src + 1) n"

text \<open>The \<open>while\<close> loop of \<open>scoutfs_kvec_memcpy\<close>, with the running count \<open>copied\<close>.\<close>

function kvec_memcpy_loop :: "nat \<Rightarrow> heap \<Rightarrow> iter \<Rightarrow> iter \<Rightarrow> nat \<Rightarrow> nat \<times> heap" where
  "kvec_memcpy_loop nr h dst_iter src_iter copied =
     (let len = min (iter_contig nr dst_iter) (iter_contig nr src_iter)
      in if len \<noteq> 0
         then kvec_memcpy_loop nr
                (memcpy h (iter_ptr nr dst_iter) (iter_ptr nr src_iter) len)
                (iter_advance nr dst_iter len) (iter_advance nr src_iter len)
                (copied + len)
         else (copied, h))"
  by pat_completeness auto
termination
proof (relation "measures [\<lambda>(nr, h, d, s, c). nr - iter_i d,
                           \<lambda>(nr, h, d, s, c). iov_len (hd (iter_kvec d)) - iter_off d]", goal_cases)
  case 1
  then show ?case by simp
next
  case (2 nr h dst_iter src_iter copied len)
  then have "0 < len" "len \<le> iter_contig nr dst_iter" by auto
  from iter_advance_decreases[OF this] show ?case by auto
qed

declare kvec_memcpy_loop.simps [simp del]

definition scoutfs_kvec_memcpy :: "nat \<Rightarrow> heap \<Rightarrow> kvec list \<Rightarrow> kvec list \<Rightarrow> int \<times> heap" where
  "scoutfs_kvec_memcpy nr h dst src =
     (let (copied, h') = kvec_memcpy_loop nr h (iter_init nr dst) (iter_init nr src) 0
      in (size_t_to_int copied, h'))"

text \<open>\<open>scoutfs_kvec_init_null\<close> zeroes the whole array (\<open>SCOUTFS_KVEC_BYTES\<close> bytes).\<close>

definition scoutfs_kvec_init_null :: "nat \<Rightarrow> kvec list" where
  "scoutfs_kvec_init_null nr = replicate nr \<lparr>iov_base = NULL, iov_len = 0\<rparr>"

text \<open>
  Modelled from the spec: \<open>scoutfs_kvec_init\<close> is declared in kvec.h; the spec has it build a
  single-segment vector over the given buffer, the other segments being null and empty.
\<close>

definition scoutfs_kvec_init :: "nat \<Rightarrow> addr \<Rightarrow> nat \<Rightarrow> kvec list" where
  "scoutfs_kvec_init nr ptr len =
     (scoutfs_kvec_init_null nr)[0 := \<lparr>iov_base = ptr, iov_len = len\<rparr>]"

text \<open>
  \<open>scoutfs_kvec_dup_flatten\<close>. The allocator is a parameter: \<open>kmalloc len\<close> is the pointer
  that \<open>kmalloc(len, GFP_NOFS)\<close> returns, \<open>NULL\<close> on failure. The arrays \<open>dst\<close> and \<open>src\<close> are
  distinct objects; the result is the return value, the memory and the new \<open>dst\<close>.
\<close>

definition scoutfs_kvec_dup_flatten ::
  "nat \<Rightarrow> (nat \<Rightarrow> addr) \<Rightarrow> heap \<Rightarrow> kvec list \<Rightarrow> kvec list \<Rightarrow> (errno + unit) \<times> heap \<times> kvec list" where
  "scoutfs_kvec_dup_flatten nr kmalloc h dst src =
     (let len = scoutfs_kvec_length src;
          ptr = kmalloc len
      in if ptr = NULL then (Inl ENOMEM, h, scoutfs_kvec_init_null nr)
         else (let dst' = scoutfs_kvec_init nr ptr len;
                   (copied, h') = scoutfs_kvec_memcpy nr h dst' src
               in (Inr (), h', dst')))"

text \<open>Copying byte by byte along two lists of addresses, until either list ends.\<close>

fun copy_addrs :: "heap \<Rightarrow> addr list \<Rightarrow> addr list \<Rightarrow> heap" where
  "copy_addrs h (d # ds) (s # ss) = copy_addrs (h(d := h s)) ds ss"
| "copy_addrs h [] ss = h"
| "copy_addrs h (d # ds) [] = h"

lemma copy_addrs_Nil_right [simp]: "copy_addrs h ds [] = h"
  by (cases ds) simp_all

lemma memcpy_copy_addrs: "memcpy h d s n = copy_addrs h [d ..< d + n] [s ..< s + n]"
proof (induction n arbitrary: h d s)
  case 0
  then show ?case by simp
next
  case (Suc n)
  have e1: "[d ..< d + Suc n] = d # [d + 1 ..< (d + 1) + n]"
    and e2: "[s ..< s + Suc n] = s # [s + 1 ..< (s + 1) + n]"
    by (simp_all add: upt_conv_Cons)
  show ?case
    unfolding memcpy.simps e1 e2 copy_addrs.simps Suc.IH[of _ "d + 1" "s + 1"]
    by (rule refl)
qed

lemma copy_addrs_append:
  "length d1 = length s1 \<Longrightarrow>
   copy_addrs h (d1 @ d2) (s1 @ s2) = copy_addrs (copy_addrs h d1 s1) d2 s2"
  by (induction d1 s1 arbitrary: h rule: list_induct2) simp_all

lemma copy_addrs_split:
  assumes "len \<le> length ds" "len \<le> length ss"
  shows "copy_addrs h ds ss =
         copy_addrs (copy_addrs h (take len ds) (take len ss)) (drop len ds) (drop len ss)"
proof -
  have "copy_addrs h (take len ds @ drop len ds) (take len ss @ drop len ss) =
         copy_addrs (copy_addrs h (take len ds) (take len ss)) (drop len ds) (drop len ss)"
    using assms by (intro copy_addrs_append) simp
  then show ?thesis by simp
qed

lemma kvec_memcpy_loop_copy_addrs:
  "iter_inv nr d \<Longrightarrow> iter_inv nr s \<Longrightarrow>
   kvec_memcpy_loop nr h d s c =
     (c + min (length (iter_addrs d)) (length (iter_addrs s)),
      copy_addrs h (iter_addrs d) (iter_addrs s))"
proof (induction nr h d s c rule: kvec_memcpy_loop.induct)
  case (1 nr h d s c)
  define len where "len = min (iter_contig nr d) (iter_contig nr s)"
  show ?case
  proof (cases "len = 0")
    case True
    then have "iter_contig nr d = 0 \<or> iter_contig nr s = 0"
      by (auto simp: len_def min_def split: if_splits)
    then have "iter_addrs d = [] \<or> iter_addrs s = []"
      using iter_contig_zero_iff[OF "1.prems"(1)] iter_contig_zero_iff[OF "1.prems"(2)]
      by simp
    then show ?thesis
      using True by (subst kvec_memcpy_loop.simps) (auto simp: Let_def len_def)
  next
    case False
    have ld: "len \<le> iter_contig nr d" and ls: "len \<le> iter_contig nr s"
      by (simp_all add: len_def)
    have td: "take len (iter_addrs d) = [iter_ptr nr d ..< iter_ptr nr d + len]"
      by (rule iter_contig_addrs[OF "1.prems"(1) ld])
    have ts: "take len (iter_addrs s) = [iter_ptr nr s ..< iter_ptr nr s + len]"
      by (rule iter_contig_addrs[OF "1.prems"(2) ls])
    have lld: "len \<le> length (iter_addrs d)"
      using ld iter_contig_le_length[OF "1.prems"(1)] by simp
    have lls: "len \<le> length (iter_addrs s)"
      using ls iter_contig_le_length[OF "1.prems"(2)] by simp
    have unf: "kvec_memcpy_loop nr h d s c =
        kvec_memcpy_loop nr (memcpy h (iter_ptr nr d) (iter_ptr nr s) len)
          (iter_advance nr d len) (iter_advance nr s len) (c + len)"
      using False by (subst kvec_memcpy_loop.simps) (simp add: Let_def len_def)
    have ih: "kvec_memcpy_loop nr (memcpy h (iter_ptr nr d) (iter_ptr nr s) len)
          (iter_advance nr d len) (iter_advance nr s len) (c + len) =
        (c + len + min (length (iter_addrs (iter_advance nr d len)))
                       (length (iter_addrs (iter_advance nr s len))),
         copy_addrs (memcpy h (iter_ptr nr d) (iter_ptr nr s) len)
           (iter_addrs (iter_advance nr d len)) (iter_addrs (iter_advance nr s len)))"
      using False
      by (intro "1.IH"[OF len_def]) (simp_all add: iter_advance_addrs "1.prems")
    show ?thesis
      unfolding unf ih
      using lld lls copy_addrs_split[OF lld lls, of h]
      by (simp add: iter_advance_addrs "1.prems" memcpy_copy_addrs td ts)
  qed
qed

lemma copy_addrs_other: "x \<notin> set ds \<Longrightarrow> copy_addrs h ds ss x = h x"
  by (induction h ds ss rule: copy_addrs.induct) auto

lemma copy_addrs_map:
  "distinct ds \<Longrightarrow> set ds \<inter> set ss = {} \<Longrightarrow> length ds \<le> length ss \<Longrightarrow>
   map (copy_addrs h ds ss) ds = map h (take (length ds) ss)"
proof (induction h ds ss rule: copy_addrs.induct)
  case (1 h d ds s ss)
  let ?h = "h(d := h s)"
  have d1: "distinct ds" and d2: "set ds \<inter> set ss = {}" and d3: "length ds \<le> length ss"
    using "1.prems" by auto
  have "map (copy_addrs ?h ds ss) ds = map ?h (take (length ds) ss)"
    by (rule "1.IH"[OF d1 d2 d3])
  moreover have "map ?h (take (length ds) ss) = map h (take (length ds) ss)"
    using "1.prems"(2) by (auto dest: in_set_takeD)
  moreover have "copy_addrs ?h ds ss d = h s"
    using "1.prems"(1) by (simp add: copy_addrs_other)
  ultimately show ?case by simp
next
  case (2 h ss)
  then show ?case by simp
next
  case (3 h d ds)
  then show ?case by simp
qed

lemma kvec_addrs_init:
  "0 < nr \<Longrightarrow> kvec_addrs (scoutfs_kvec_init nr ptr len) = [ptr ..< ptr + len]"
proof -
  assume "0 < nr"
  then obtain m where "nr = Suc m" by (cases nr) auto
  then have "scoutfs_kvec_init nr ptr len =
      \<lparr>iov_base = ptr, iov_len = len\<rparr> # replicate m \<lparr>iov_base = NULL, iov_len = 0\<rparr>"
    by (simp add: scoutfs_kvec_init_def scoutfs_kvec_init_null_def)
  moreover have "kvec_addrs (replicate m \<lparr>iov_base = NULL, iov_len = 0\<rparr>) = []"
    by (induction m) (simp_all add: seg_addrs_def)
  ultimately show ?thesis by (simp add: seg_addrs_def)
qed

lemma length_scoutfs_kvec_init [simp]: "length (scoutfs_kvec_init nr ptr len) = nr"
  by (simp add: scoutfs_kvec_init_def scoutfs_kvec_init_null_def)

lemma scoutfs_kvec_memcpy_heap:
  assumes "length dst = nr" "length src = nr"
  shows "snd (scoutfs_kvec_memcpy nr h dst src) = copy_addrs h (kvec_addrs dst) (kvec_addrs src)"
  using assms
  by (simp add: scoutfs_kvec_memcpy_def kvec_memcpy_loop_copy_addrs iter_init_addrs)

text \<open>
  C7 (flatten round trip). When \<open>scoutfs_kvec_dup_flatten\<close> succeeds, and the buffer that
  \<open>kmalloc\<close> returned is new (none of its bytes is a byte of \<open>src\<close>), then \<open>dst\<close> is the
  single segment (\<open>ptr\<close>, \<open>len\<close>) over that buffer followed by null segments, it compares
  equal to \<open>src\<close>, it has the length of \<open>src\<close>, and the bytes of \<open>src\<close> are as before.
\<close>

theorem kvec_dup_flatten_roundtrip:
  assumes "length src = nr" "0 < nr"
    and ok: "fst (scoutfs_kvec_dup_flatten nr kmalloc h dst src) = Inr ()"
    and fresh: "\<forall>x \<in> set (kvec_addrs src).
                  x < kmalloc (scoutfs_kvec_length src) \<or>
                  kmalloc (scoutfs_kvec_length src) + scoutfs_kvec_length src \<le> x"
  shows "\<exists>h' dst'. scoutfs_kvec_dup_flatten nr kmalloc h dst src = (Inr (), h', dst') \<and>
           dst' = \<lparr>iov_base = kmalloc (scoutfs_kvec_length src),
                   iov_len = scoutfs_kvec_length src\<rparr>
                  # replicate (nr - 1) \<lparr>iov_base = NULL, iov_len = 0\<rparr> \<and>
           scoutfs_kvec_memcmp nr h' dst' src = 0 \<and>
           scoutfs_kvec_length dst' = scoutfs_kvec_length src \<and>
           kvec_bytes h' dst' = kvec_bytes h src \<and>
           kvec_bytes h' src = kvec_bytes h src"
proof -
  define len where "len = scoutfs_kvec_length src"
  define ptr where "ptr = kmalloc len"
  define dst' where "dst' = scoutfs_kvec_init nr ptr len"
  define h' where "h' = snd (scoutfs_kvec_memcpy nr h dst' src)"
  from ok have nn: "ptr \<noteq> NULL"
    by (auto simp: scoutfs_kvec_dup_flatten_def Let_def ptr_def len_def split: if_splits)
  then have res: "scoutfs_kvec_dup_flatten nr kmalloc h dst src = (Inr (), h', dst')"
    by (simp add: scoutfs_kvec_dup_flatten_def Let_def ptr_def len_def dst'_def h'_def
        split: prod.splits)
  have da: "kvec_addrs dst' = [ptr ..< ptr + len]"
    using assms(2) by (simp add: dst'_def kvec_addrs_init)
  have h': "h' = copy_addrs h [ptr ..< ptr + len] (kvec_addrs src)"
    using assms(1) by (simp add: h'_def scoutfs_kvec_memcpy_heap dst'_def da[unfolded dst'_def])
  have disj: "set [ptr ..< ptr + len] \<inter> set (kvec_addrs src) = {}"
    using fresh by (auto simp: ptr_def len_def)
  have ls: "length (kvec_addrs src) = len"
    by (simp add: length_kvec_addrs len_def)
  have b1: "kvec_bytes h' dst' = kvec_bytes h src"
    using copy_addrs_map[of "[ptr ..< ptr + len]" "kvec_addrs src" h] disj ls
    by (simp add: kvec_bytes_def da h')
  have "h' x = h x" if "x \<in> set (kvec_addrs src)" for x
  proof -
    from that disj have "x \<notin> set [ptr ..< ptr + len]" by blast
    then show ?thesis unfolding h' by (rule copy_addrs_other)
  qed
  then have b2: "kvec_bytes h' src = kvec_bytes h src"
    by (simp add: kvec_bytes_def)
  have shape: "dst' = \<lparr>iov_base = ptr, iov_len = len\<rparr>
                  # replicate (nr - 1) \<lparr>iov_base = NULL, iov_len = 0\<rparr>"
    using assms(2) by (cases nr) (simp_all add: dst'_def scoutfs_kvec_init_def scoutfs_kvec_init_null_def)
  have l: "scoutfs_kvec_length dst' = len"
    using length_kvec_addrs[of dst'] da by simp
  have c: "scoutfs_kvec_memcmp nr h' dst' src = 0"
    using assms(1) by (simp add: scoutfs_kvec_memcmp_cmp_bytes dst'_def b1[unfolded dst'_def] b2 cmp_bytes_refl)
  show ?thesis
    using res shape c l b1 b2 by (simp add: ptr_def len_def)
qed

text \<open>Flattening ["ab","c"] into a buffer at address 100.\<close>

theorem kvec_dup_flatten_roundtrip_witness:
  "fst (scoutfs_kvec_dup_flatten 2 (\<lambda>n. 100) ex_heap
          [\<lparr>iov_base = 30, iov_len = 1\<rparr>, \<lparr>iov_base = 40, iov_len = 2\<rparr>]
          [\<lparr>iov_base = 10, iov_len = 2\<rparr>, \<lparr>iov_base = 20, iov_len = 1\<rparr>]) = Inr () \<and>
   (\<exists>h'. scoutfs_kvec_dup_flatten 2 (\<lambda>n. 100) ex_heap
          [\<lparr>iov_base = 30, iov_len = 1\<rparr>, \<lparr>iov_base = 40, iov_len = 2\<rparr>]
          [\<lparr>iov_base = 10, iov_len = 2\<rparr>, \<lparr>iov_base = 20, iov_len = 1\<rparr>]
        = (Inr (), h', [\<lparr>iov_base = 100, iov_len = 3\<rparr>, \<lparr>iov_base = NULL, iov_len = 0\<rparr>]) \<and>
      kvec_bytes h' [\<lparr>iov_base = 100, iov_len = 3\<rparr>, \<lparr>iov_base = NULL, iov_len = 0\<rparr>]
        = [97, 98, 99] \<and>
      scoutfs_kvec_memcmp 2 h' [\<lparr>iov_base = 100, iov_len = 3\<rparr>, \<lparr>iov_base = NULL, iov_len = 0\<rparr>]
          [\<lparr>iov_base = 10, iov_len = 2\<rparr>, \<lparr>iov_base = 20, iov_len = 1\<rparr>] = 0)"
proof -
  let ?src = "[\<lparr>iov_base = 10, iov_len = 2\<rparr>, \<lparr>iov_base = 20, iov_len = 1\<rparr>]"
  let ?dst = "[\<lparr>iov_base = 30, iov_len = 1\<rparr>, \<lparr>iov_base = 40, iov_len = 2\<rparr>]"
  have l: "length ?src = 2" "0 < (2::nat)" by simp_all
  have len: "scoutfs_kvec_length ?src = 3" by (simp add: scoutfs_kvec_length_def)
  have ok: "fst (scoutfs_kvec_dup_flatten 2 (\<lambda>n. 100) ex_heap ?dst ?src) = Inr ()"
    by (simp add: scoutfs_kvec_dup_flatten_def NULL_def Let_def split: prod.splits)
  have fresh: "\<forall>x \<in> set (kvec_addrs ?src).
        x < (\<lambda>n. 100) (scoutfs_kvec_length ?src) \<or>
        (\<lambda>n. 100) (scoutfs_kvec_length ?src) + scoutfs_kvec_length ?src \<le> x"
    by (simp add: kvec_bytes_eval)
  have b: "kvec_bytes ex_heap ?src = [97, 98, 99]"
    by (simp add: kvec_bytes_eval ex_heap_def)
  from kvec_dup_flatten_roundtrip[OF l ok fresh] ok b len show ?thesis
    by (auto simp: numeral_2_eq_2)
qed

section \<open>Big-endian increment and decrement (kvec.c)\<close>

text \<open>
  The inner \<open>for\<close> loop of \<open>scoutfs_kvec_be_inc\<close> over the bytes of one segment, from
  index \<open>b\<close> down to 0. The flag tells whether the function returned from inside the loop.
\<close>

function be_inc_bytes :: "heap \<Rightarrow> addr \<Rightarrow> int \<Rightarrow> heap \<times> bool" where
  "be_inc_bytes h base b =
     (if b \<ge> 0
      then (let h' = h(base + nat b := h (base + nat b) + 1)
            in if h' (base + nat b) \<noteq> 0 then (h', True)
               else be_inc_bytes h' base (b - 1))
      else (h, False))"
  by pat_completeness auto
termination
  by (relation "measure (\<lambda>(h, base, b). nat (b + 1))") auto

declare be_inc_bytes.simps [simp del]

text \<open>The outer loop over the segments, from index \<open>i\<close> down to 0.\<close>

function be_inc_loop :: "heap \<Rightarrow> kvec list \<Rightarrow> int \<Rightarrow> heap" where
  "be_inc_loop h kv i =
     (if i \<ge> 0
      then (let (h', returned) =
                  be_inc_bytes h (iov_base (kv ! nat i))
                    (size_t_to_int (iov_len (kv ! nat i)) - 1)
            in if returned then h' else be_inc_loop h' kv (i - 1))
      else h)"
  by pat_completeness auto
termination
  by (relation "measure (\<lambda>(h, kv, i). nat (i + 1))") auto

declare be_inc_loop.simps [simp del]

definition scoutfs_kvec_be_inc :: "nat \<Rightarrow> heap \<Rightarrow> kvec list \<Rightarrow> heap" where
  "scoutfs_kvec_be_inc nr h kv = be_inc_loop h kv (int nr - 1)"

function be_dec_bytes :: "heap \<Rightarrow> addr \<Rightarrow> int \<Rightarrow> heap \<times> bool" where
  "be_dec_bytes h base b =
     (if b \<ge> 0
      then (let h' = h(base + nat b := h (base + nat b) - 1)
            in if h' (base + nat b) \<noteq> 0xff then (h', True)
               else be_dec_bytes h' base (b - 1))
      else (h, False))"
  by pat_completeness auto
termination
  by (relation "measure (\<lambda>(h, base, b). nat (b + 1))") auto

declare be_dec_bytes.simps [simp del]

function be_dec_loop :: "heap \<Rightarrow> kvec list \<Rightarrow> int \<Rightarrow> heap" where
  "be_dec_loop h kv i =
     (if i \<ge> 0
      then (let (h', returned) =
                  be_dec_bytes h (iov_base (kv ! nat i))
                    (size_t_to_int (iov_len (kv ! nat i)) - 1)
            in if returned then h' else be_dec_loop h' kv (i - 1))
      else h)"
  by pat_completeness auto
termination
  by (relation "measure (\<lambda>(h, kv, i). nat (i + 1))") auto

declare be_dec_loop.simps [simp del]

definition scoutfs_kvec_be_dec :: "nat \<Rightarrow> heap \<Rightarrow> kvec list \<Rightarrow> heap" where
  "scoutfs_kvec_be_dec nr h kv = be_dec_loop h kv (int nr - 1)"

text \<open>
  The value of a byte sequence as one big-endian unsigned integer (the spec's reading of
  the concatenated bytes), and the same for the least significant byte first.
\<close>

definition be_val :: "u8 list \<Rightarrow> nat" where
  "be_val bs = foldl (\<lambda>v b. v * 256 + unat b) 0 bs"

fun le_val :: "u8 list \<Rightarrow> nat" where
  "le_val [] = 0"
| "le_val (b # bs) = unat b + 256 * le_val bs"

text \<open>Increment and decrement along a list of addresses, least significant first.\<close>

fun inc_addrs :: "heap \<Rightarrow> addr list \<Rightarrow> heap \<times> bool" where
  "inc_addrs h [] = (h, False)"
| "inc_addrs h (a # as) =
     (let h' = h(a := h a + 1)
      in if h' a \<noteq> 0 then (h', True) else inc_addrs h' as)"

fun dec_addrs :: "heap \<Rightarrow> addr list \<Rightarrow> heap \<times> bool" where
  "dec_addrs h [] = (h, False)"
| "dec_addrs h (a # as) =
     (let h' = h(a := h a - 1)
      in if h' a \<noteq> 0xff then (h', True) else dec_addrs h' as)"


lemma size_t_to_int_small: "n < 2 ^ 31 \<Longrightarrow> size_t_to_int n = int n"
  unfolding size_t_to_int_def
  by (simp add: signed_of_nat signed_take_bit_int_eq_self)

lemma be_inc_bytes_inc_addrs:
  "- 1 \<le> b \<Longrightarrow> be_inc_bytes h base b = inc_addrs h (rev [base ..< base + nat (b + 1)])"
proof (induction h base b rule: be_inc_bytes.induct)
  case (1 h base b)
  show ?case
  proof (cases "b \<ge> 0")
    case True
    then have n: "nat (b + 1) = Suc (nat b)" "nat (b - 1 + 1) = nat b" by simp_all
    let ?h = "h(base + nat b := h (base + nat b) + 1)"
    show ?thesis
    proof (cases "?h (base + nat b) \<noteq> 0")
      case T2: True
      then show ?thesis
        using True by (subst be_inc_bytes.simps) (simp add: n Let_def)
    next
      case False
      have "be_inc_bytes ?h base (b - 1) = inc_addrs ?h (rev [base ..< base + nat (b - 1 + 1)])"
        using True False by (intro "1.IH"[OF True refl]) simp_all
      then show ?thesis
        using True False by (subst be_inc_bytes.simps) (simp add: n Let_def)
    qed
  next
    case False
    with "1.prems" have "b = - 1" by simp
    then show ?thesis by (subst be_inc_bytes.simps) simp
  qed
qed

lemma be_dec_bytes_dec_addrs:
  "- 1 \<le> b \<Longrightarrow> be_dec_bytes h base b = dec_addrs h (rev [base ..< base + nat (b + 1)])"
proof (induction h base b rule: be_dec_bytes.induct)
  case (1 h base b)
  show ?case
  proof (cases "b \<ge> 0")
    case True
    then have n: "nat (b + 1) = Suc (nat b)" "nat (b - 1 + 1) = nat b" by simp_all
    let ?h = "h(base + nat b := h (base + nat b) - 1)"
    show ?thesis
    proof (cases "?h (base + nat b) \<noteq> 0xff")
      case T2: True
      then show ?thesis
        using True by (subst be_dec_bytes.simps) (simp add: n Let_def)
    next
      case False
      have "be_dec_bytes ?h base (b - 1) = dec_addrs ?h (rev [base ..< base + nat (b - 1 + 1)])"
        using True False by (intro "1.IH"[OF True refl]) simp_all
      then show ?thesis
        using True False by (subst be_dec_bytes.simps) (simp add: n Let_def)
    qed
  next
    case False
    with "1.prems" have "b = - 1" by simp
    then show ?thesis by (subst be_dec_bytes.simps) simp
  qed
qed

lemma inc_addrs_append:
  "inc_addrs h (xs @ ys) =
     (let (h', returned) = inc_addrs h xs in if returned then (h', True) else inc_addrs h' ys)"
  by (induction xs arbitrary: h) (simp_all add: Let_def)

lemma dec_addrs_append:
  "dec_addrs h (xs @ ys) =
     (let (h', returned) = dec_addrs h xs in if returned then (h', True) else dec_addrs h' ys)"
  by (induction xs arbitrary: h) (simp_all add: Let_def)

lemma kvec_addrs_snoc: "kvec_addrs (kv @ [s]) = kvec_addrs kv @ seg_addrs s"
  by (simp add: kvec_addrs_def)

lemma be_inc_loop_inc_addrs:
  "- 1 \<le> i \<Longrightarrow> i < int (length kv) \<Longrightarrow> \<forall>s \<in> set kv. iov_len s < 2 ^ 31 \<Longrightarrow>
   be_inc_loop h kv i = fst (inc_addrs h (rev (kvec_addrs (take (nat (i + 1)) kv))))"
proof (induction h kv i rule: be_inc_loop.induct)
  case (1 h kv i)
  show ?case
  proof (cases "i \<ge> 0")
    case True
    define s where "s = kv ! nat i"
    have lt: "nat i < length kv" using True "1.prems"(2) by simp
    then have small: "iov_len s < 2 ^ 31" using "1.prems"(3) by (simp add: s_def)
    have tk: "take (nat (i + 1)) kv = take (nat i) kv @ [s]"
      using True lt by (simp add: nat_add_distrib take_Suc_conv_app_nth s_def)
    have seg: "be_inc_bytes h (iov_base s) (size_t_to_int (iov_len s) - 1) =
               inc_addrs h (rev (seg_addrs s))"
      using be_inc_bytes_inc_addrs[of "int (iov_len s) - 1" h "iov_base s"]
      by (simp add: size_t_to_int_small[OF small] seg_addrs_def)
    obtain h' r where hr: "inc_addrs h (rev (seg_addrs s)) = (h', r)"
      by (cases "inc_addrs h (rev (seg_addrs s))")
    have all: "inc_addrs h (rev (kvec_addrs (take (nat (i + 1)) kv))) =
               (if r then (h', True) else inc_addrs h' (rev (kvec_addrs (take (nat i) kv))))"
      by (simp add: tk kvec_addrs_snoc inc_addrs_append hr)
    show ?thesis
    proof (cases r)
      case T2: True
      then show ?thesis
        using True seg hr all by (subst be_inc_loop.simps) (simp add: s_def[symmetric])
    next
      case False
      have "be_inc_loop h' kv (i - 1) =
            fst (inc_addrs h' (rev (kvec_addrs (take (nat (i - 1 + 1)) kv))))"
        using True False "1.prems" seg hr
        by (intro "1.IH"[OF True _ refl]) (simp_all add: s_def)
      then show ?thesis
        using True False seg hr all by (subst be_inc_loop.simps) (simp add: s_def[symmetric])
    qed
  next
    case False
    with "1.prems" have "i = - 1" by simp
    then show ?thesis by (subst be_inc_loop.simps) simp
  qed
qed

lemma be_dec_loop_dec_addrs:
  "- 1 \<le> i \<Longrightarrow> i < int (length kv) \<Longrightarrow> \<forall>s \<in> set kv. iov_len s < 2 ^ 31 \<Longrightarrow>
   be_dec_loop h kv i = fst (dec_addrs h (rev (kvec_addrs (take (nat (i + 1)) kv))))"
proof (induction h kv i rule: be_dec_loop.induct)
  case (1 h kv i)
  show ?case
  proof (cases "i \<ge> 0")
    case True
    define s where "s = kv ! nat i"
    have lt: "nat i < length kv" using True "1.prems"(2) by simp
    then have small: "iov_len s < 2 ^ 31" using "1.prems"(3) by (simp add: s_def)
    have tk: "take (nat (i + 1)) kv = take (nat i) kv @ [s]"
      using True lt by (simp add: nat_add_distrib take_Suc_conv_app_nth s_def)
    have seg: "be_dec_bytes h (iov_base s) (size_t_to_int (iov_len s) - 1) =
               dec_addrs h (rev (seg_addrs s))"
      using be_dec_bytes_dec_addrs[of "int (iov_len s) - 1" h "iov_base s"]
      by (simp add: size_t_to_int_small[OF small] seg_addrs_def)
    obtain h' r where hr: "dec_addrs h (rev (seg_addrs s)) = (h', r)"
      by (cases "dec_addrs h (rev (seg_addrs s))")
    have all: "dec_addrs h (rev (kvec_addrs (take (nat (i + 1)) kv))) =
               (if r then (h', True) else dec_addrs h' (rev (kvec_addrs (take (nat i) kv))))"
      by (simp add: tk kvec_addrs_snoc dec_addrs_append hr)
    show ?thesis
    proof (cases r)
      case T2: True
      then show ?thesis
        using True seg hr all by (subst be_dec_loop.simps) (simp add: s_def[symmetric])
    next
      case False
      have "be_dec_loop h' kv (i - 1) =
            fst (dec_addrs h' (rev (kvec_addrs (take (nat (i - 1 + 1)) kv))))"
        using True False "1.prems" seg hr
        by (intro "1.IH"[OF True _ refl]) (simp_all add: s_def)
      then show ?thesis
        using True False seg hr all by (subst be_dec_loop.simps) (simp add: s_def[symmetric])
    qed
  next
    case False
    with "1.prems" have "i = - 1" by simp
    then show ?thesis by (subst be_dec_loop.simps) simp
  qed
qed

lemma scoutfs_kvec_be_inc_addrs:
  "length kv = nr \<Longrightarrow> \<forall>s \<in> set kv. iov_len s < 2 ^ 31 \<Longrightarrow>
   scoutfs_kvec_be_inc nr h kv = fst (inc_addrs h (rev (kvec_addrs kv)))"
  using be_inc_loop_inc_addrs[of "int nr - 1" kv h]
  by (simp add: scoutfs_kvec_be_inc_def)

lemma scoutfs_kvec_be_dec_addrs:
  "length kv = nr \<Longrightarrow> \<forall>s \<in> set kv. iov_len s < 2 ^ 31 \<Longrightarrow>
   scoutfs_kvec_be_dec nr h kv = fst (dec_addrs h (rev (kvec_addrs kv)))"
  using be_dec_loop_dec_addrs[of "int nr - 1" kv h]
  by (simp add: scoutfs_kvec_be_dec_def)

lemma be_val_snoc: "be_val (bs @ [b]) = be_val bs * 256 + unat b"
  by (simp add: be_val_def)

lemma be_val_le_val: "be_val bs = le_val (rev bs)"
proof (induction bs rule: rev_induct)
  case Nil
  then show ?case by (simp add: be_val_def)
next
  case (snoc b bs)
  then show ?case by (simp add: be_val_snoc)
qed

lemma le_val_bound: "le_val bs < 256 ^ length bs"
proof (induction bs)
  case Nil
  then show ?case by simp
next
  case (Cons b bs)
  have "unat b < 256" using unsigned_less[of b] by simp
  with Cons show ?case by simp
qed

lemma u8_inc_nowrap: "(x :: u8) + 1 \<noteq> 0 \<Longrightarrow> unat (x + 1) = unat x + 1"
  by (simp add: unatSuc add.commute)

lemma u8_inc_wrap: "(x :: u8) + 1 = 0 \<Longrightarrow> x = 0xff"
proof -
  assume "x + 1 = 0"
  then have "x = - 1" by (simp add: eq_neg_iff_add_eq_0)
  then show ?thesis by simp
qed

lemma u8_dec_nowrap: "(x :: u8) - 1 \<noteq> 0xff \<Longrightarrow> unat (x - 1) + 1 = unat x"
proof -
  assume "x - 1 \<noteq> 0xff"
  then have "x \<noteq> 0" by auto
  then show ?thesis by (simp add: unat_minus_one unat_gt_0)
qed

lemma u8_dec_wrap: "(x :: u8) - 1 = 0xff \<Longrightarrow> x = 0"
proof -
  assume "x - 1 = 0xff"
  then have "x = 0xff + 1" by (metis diff_add_cancel)
  then show ?thesis by simp
qed

lemma inc_addrs_Cons_stop:
  "h a + 1 \<noteq> 0 \<Longrightarrow> inc_addrs h (a # as) = (h(a := h a + 1), True)"
  by (simp add: Let_def)

lemma inc_addrs_Cons_carry:
  "h a + 1 = 0 \<Longrightarrow> inc_addrs h (a # as) = inc_addrs (h(a := 0)) as"
  by (simp add: Let_def)

lemma dec_addrs_Cons_stop:
  "h a - 1 \<noteq> 0xff \<Longrightarrow> dec_addrs h (a # as) = (h(a := h a - 1), True)"
  by (simp add: Let_def)

lemma dec_addrs_Cons_borrow:
  "h a - 1 = 0xff \<Longrightarrow> dec_addrs h (a # as) = dec_addrs (h(a := 0xff)) as"
  by (simp add: Let_def)

lemma inc_addrs_other: "x \<notin> set as \<Longrightarrow> fst (inc_addrs h as) x = h x"
proof (induction as arbitrary: h)
  case Nil
  then show ?case by simp
next
  case (Cons a as)
  then have ne: "x \<noteq> a" and nx: "x \<notin> set as" by auto
  show ?case
  proof (cases "h a + 1 = 0")
    case True
    show ?thesis
      unfolding inc_addrs_Cons_carry[of h a, OF True] Cons.IH[OF nx] using ne by simp
  next
    case False
    show ?thesis
      unfolding inc_addrs_Cons_stop[of h a, OF False] using ne by simp
  qed
qed

lemma dec_addrs_other: "x \<notin> set as \<Longrightarrow> fst (dec_addrs h as) x = h x"
proof (induction as arbitrary: h)
  case Nil
  then show ?case by simp
next
  case (Cons a as)
  then have ne: "x \<noteq> a" and nx: "x \<notin> set as" by auto
  show ?case
  proof (cases "h a - 1 = 0xff")
    case True
    show ?thesis
      unfolding dec_addrs_Cons_borrow[of h a, OF True] Cons.IH[OF nx] using ne by simp
  next
    case False
    show ?thesis
      unfolding dec_addrs_Cons_stop[of h a, OF False] using ne by simp
  qed
qed

lemma inc_addrs_val:
  "distinct as \<Longrightarrow>
   le_val (map (fst (inc_addrs h as)) as) + (if snd (inc_addrs h as) then 0 else 256 ^ length as)
     = le_val (map h as) + 1"
proof (induction as arbitrary: h)
  case Nil
  then show ?case by simp
next
  case (Cons a as)
  from Cons.prems have na: "a \<notin> set as" and d: "distinct as" by simp_all
  show ?case
  proof (cases "h a + 1 = 0")
    case False
    have m: "map (h(a := h a + 1)) as = map h as"
      using na by simp
    have v: "le_val (map (h(a := h a + 1)) (a # as)) = unat (h a) + 1 + 256 * le_val (map h as)"
      by (simp only: list.map le_val.simps fun_upd_same m u8_inc_nowrap[OF False])
    show ?thesis
      unfolding inc_addrs_Cons_stop[of h a, OF False] fst_conv snd_conv v by simp
  next
    case True
    let ?h = "h(a := 0)"
    have m: "map ?h as = map h as" using na by simp
    have ih: "le_val (map (fst (inc_addrs ?h as)) as)
              + (if snd (inc_addrs ?h as) then 0 else 256 ^ length as)
              = le_val (map h as) + 1"
      using Cons.IH[OF d, of ?h] by (simp only: m)
    have a0: "fst (inc_addrs ?h as) a = 0"
      using inc_addrs_other[OF na, of ?h] by simp
    have "le_val (map (fst (inc_addrs ?h as)) (a # as))
          + (if snd (inc_addrs ?h as) then 0 else 256 ^ length (a # as))
          = 256 * (le_val (map (fst (inc_addrs ?h as)) as)
              + (if snd (inc_addrs ?h as) then 0 else 256 ^ length as))"
      by (simp add: a0)
    also have "\<dots> = 256 * (le_val (map h as) + 1)"
      by (simp only: ih)
    also have "\<dots> = le_val (map h (a # as)) + 1"
      using u8_inc_wrap[OF True] by simp
    finally show ?thesis
      unfolding inc_addrs_Cons_carry[of h a, OF True] .
  qed
qed

lemma dec_addrs_val:
  "distinct as \<Longrightarrow>
   le_val (map (fst (dec_addrs h as)) as) + 1
     = le_val (map h as) + (if snd (dec_addrs h as) then 0 else 256 ^ length as)"
proof (induction as arbitrary: h)
  case Nil
  then show ?case by simp
next
  case (Cons a as)
  from Cons.prems have na: "a \<notin> set as" and d: "distinct as" by simp_all
  show ?case
  proof (cases "h a - 1 = 0xff")
    case False
    have m: "map (h(a := h a - 1)) as = map h as"
      using na by simp
    have v: "le_val (map (h(a := h a - 1)) (a # as)) = unat (h a - 1) + 256 * le_val (map h as)"
      by (simp only: list.map le_val.simps fun_upd_same m)
    show ?thesis
      unfolding dec_addrs_Cons_stop[of h a, OF False] fst_conv snd_conv v
      using u8_dec_nowrap[OF False] by simp
  next
    case True
    let ?h = "h(a := 0xff)"
    have m: "map ?h as = map h as" using na by simp
    have ih: "le_val (map (fst (dec_addrs ?h as)) as) + 1
              = le_val (map h as) + (if snd (dec_addrs ?h as) then 0 else 256 ^ length as)"
      using Cons.IH[OF d, of ?h] by (simp only: m)
    have a0: "fst (dec_addrs ?h as) a = 0xff"
      using dec_addrs_other[OF na, of ?h] by simp
    have h0: "h a = 0" using True by (rule u8_dec_wrap)
    have "le_val (map (fst (dec_addrs ?h as)) (a # as)) + 1
          = 256 * (le_val (map (fst (dec_addrs ?h as)) as) + 1)"
      by (simp add: a0)
    also have "\<dots> = 256 * (le_val (map h as) + (if snd (dec_addrs ?h as) then 0 else 256 ^ length as))"
      by (simp only: ih)
    also have "\<dots> = le_val (map h (a # as))
                    + (if snd (dec_addrs ?h as) then 0 else 256 ^ length (a # as))"
      using h0 by simp
    finally show ?thesis
      unfolding dec_addrs_Cons_borrow[of h a, OF True] .
  qed
qed

lemma inc_addrs_upd_commute:
  "a \<notin> set as \<Longrightarrow>
   fst (inc_addrs (h(a := v)) as) = (fst (inc_addrs h as))(a := v)"
proof (induction as arbitrary: h)
  case Nil
  then show ?case by simp
next
  case (Cons x as)
  then have ne: "x \<noteq> a" and na: "a \<notin> set as" by auto
  have hx: "(h(a := v)) x = h x" using ne by simp
  show ?case
  proof (cases "h x + 1 = 0")
    case True
    have T': "(h(a := v)) x + 1 = 0" using True hx by simp
    have sw: "(h(a := v))(x := 0) = (h(x := 0))(a := v)"
      using ne by (simp add: fun_upd_twist)
    show ?thesis
      unfolding inc_addrs_Cons_carry[of h x, OF True] inc_addrs_Cons_carry[of "h(a := v)" x, OF T'] sw
      by (rule Cons.IH[OF na])
  next
    case False
    have F': "(h(a := v)) x + 1 \<noteq> 0" using False hx by simp
    have sw: "(h(a := v))(x := h x + 1) = (h(x := h x + 1))(a := v)"
      using ne by (simp add: fun_upd_twist)
    show ?thesis
      unfolding inc_addrs_Cons_stop[of h x, OF False] inc_addrs_Cons_stop[of "h(a := v)" x, OF F'] hx fst_conv sw
      by (rule refl)
  qed
qed

lemma dec_inc_addrs:
  "distinct as \<Longrightarrow> fst (dec_addrs (fst (inc_addrs h as)) as) = h"
proof (induction as arbitrary: h)
  case Nil
  then show ?case by simp
next
  case (Cons a as)
  from Cons.prems have na: "a \<notin> set as" and d: "distinct as" by simp_all
  show ?case
  proof (cases "h a + 1 = 0")
    case False
    let ?h = "h(a := h a + 1)"
    have "?h a - 1 \<noteq> 0xff"
    proof
      assume "?h a - 1 = 0xff"
      then have "h a = 0xff" by simp
      with False show False by simp
    qed
    then have st: "dec_addrs ?h (a # as) = (?h(a := ?h a - 1), True)"
      by (rule dec_addrs_Cons_stop[of ?h a as])
    have e: "?h(a := ?h a - 1) = h"
      by simp
    show ?thesis
      unfolding inc_addrs_Cons_stop[of h a, OF False] fst_conv st e by (rule refl)
  next
    case True
    then have hff: "h a = 0xff" by (rule u8_inc_wrap)
    define g where "g = fst (inc_addrs (h(a := 0)) as)"
    have ga: "g a = 0"
      using inc_addrs_other[OF na, of "h(a := 0)"] by (simp add: g_def)
    then have gb: "g a - 1 = 0xff" by simp
    have "g(a := 0xff) = fst (inc_addrs ((h(a := 0))(a := 0xff)) as)"
      unfolding g_def by (rule inc_addrs_upd_commute[OF na, symmetric])
    also have "(h(a := 0))(a := 0xff) = h"
      using hff by auto
    finally have "g(a := 0xff) = fst (inc_addrs h as)" .
    then have "fst (dec_addrs g (a # as)) = h"
      unfolding dec_addrs_Cons_borrow[of g a, OF gb] using Cons.IH[OF d, of h] by simp
    then show ?thesis
      unfolding inc_addrs_Cons_carry[of h a, OF True] g_def .
  qed
qed

lemma inc_addrs_all_ff:
  "distinct as \<Longrightarrow> \<forall>a \<in> set as. h a = 0xff \<Longrightarrow>
   \<forall>a \<in> set as. fst (inc_addrs h as) a = 0"
proof (induction as arbitrary: h)
  case Nil
  then show ?case by simp
next
  case (Cons a as)
  from Cons.prems have na: "a \<notin> set as" and d: "distinct as" and ha: "h a + 1 = 0"
    and rest: "\<forall>x \<in> set as. (h(a := 0)) x = 0xff"
    by auto
  have "\<forall>x \<in> set as. fst (inc_addrs (h(a := 0)) as) x = 0"
    by (rule Cons.IH[OF d rest])
  moreover have "fst (inc_addrs (h(a := 0)) as) a = 0"
    using inc_addrs_other[OF na, of "h(a := 0)"] by simp
  ultimately show ?case
    unfolding inc_addrs_Cons_carry[of h a, OF ha] by simp
qed

lemma dec_addrs_all_zero:
  "distinct as \<Longrightarrow> \<forall>a \<in> set as. h a = 0 \<Longrightarrow>
   \<forall>a \<in> set as. fst (dec_addrs h as) a = 0xff"
proof (induction as arbitrary: h)
  case Nil
  then show ?case by simp
next
  case (Cons a as)
  from Cons.prems have na: "a \<notin> set as" and d: "distinct as" and ha: "h a - 1 = 0xff"
    and rest: "\<forall>x \<in> set as. (h(a := 0xff)) x = 0"
    by auto
  have "\<forall>x \<in> set as. fst (dec_addrs (h(a := 0xff)) as) x = 0xff"
    by (rule Cons.IH[OF d rest])
  moreover have "fst (dec_addrs (h(a := 0xff)) as) a = 0xff"
    using dec_addrs_other[OF na, of "h(a := 0xff)"] by simp
  ultimately show ?case
    unfolding dec_addrs_Cons_borrow[of h a, OF ha] by simp
qed

lemma inc_addrs_mod:
  assumes "distinct as"
  shows "le_val (map (fst (inc_addrs h as)) as) = (le_val (map h as) + 1) mod 256 ^ length as"
proof -
  let ?v' = "le_val (map (fst (inc_addrs h as)) as)" and ?v = "le_val (map h as)"
  have b': "?v' < 256 ^ length as" and b: "?v < 256 ^ length as"
    using le_val_bound[of "map (fst (inc_addrs h as)) as"] le_val_bound[of "map h as"]
    by simp_all
  show ?thesis
  proof (cases "snd (inc_addrs h as)")
    case True
    with inc_addrs_val[OF assms, of h] have "?v' = ?v + 1" by simp
    with b' show ?thesis by simp
  next
    case False
    with inc_addrs_val[OF assms, of h] have e: "?v' + 256 ^ length as = ?v + 1" by simp
    with b b' have "?v' = 0" "?v + 1 = 256 ^ length as" by linarith+
    then show ?thesis by simp
  qed
qed

lemma dec_addrs_mod:
  assumes "distinct as"
  shows "le_val (map (fst (dec_addrs h as)) as)
         = (le_val (map h as) + 256 ^ length as - 1) mod 256 ^ length as"
proof -
  let ?v' = "le_val (map (fst (dec_addrs h as)) as)" and ?v = "le_val (map h as)"
  let ?m = "(256::nat) ^ length as"
  have b': "?v' < ?m" and b: "?v < ?m"
    using le_val_bound[of "map (fst (dec_addrs h as)) as"] le_val_bound[of "map h as"]
    by simp_all
  show ?thesis
  proof (cases "snd (dec_addrs h as)")
    case True
    with dec_addrs_val[OF assms, of h] have e: "?v' + 1 = ?v" by simp
    then have "?v + ?m - 1 = ?v' + ?m" by simp
    with b' show ?thesis by simp
  next
    case False
    with dec_addrs_val[OF assms, of h] have e: "?v' + 1 = ?v + ?m" by simp
    with b b' have "?v = 0" "?v' = ?m - 1" by linarith+
    then show ?thesis using b' by simp
  qed
qed

text \<open>
  C6 (increment, decrement). For a key vector whose segments do not overlap and are each
  shorter than \<open>2^31\<close> bytes (the loops index a segment with an \<open>int\<close>):
  \<open>scoutfs_kvec_be_dec\<close> after \<open>scoutfs_kvec_be_inc\<close> restores the memory, hence the byte
  sequence; \<open>scoutfs_kvec_be_inc\<close> adds 1 to the concatenated bytes read as one big-endian
  number, modulo \<open>256^length\<close>, and \<open>scoutfs_kvec_be_dec\<close> subtracts 1 modulo \<open>256^length\<close>,
  so carries and borrows cross segment boundaries; at the extremes all-\<open>0xff\<close> wraps to
  all-\<open>0x00\<close> and all-\<open>0x00\<close> to all-\<open>0xff\<close>; bytes outside the vector are untouched.
\<close>

theorem kvec_be_inc_dec:
  assumes "length kv = nr"
    and "\<forall>s \<in> set kv. iov_len s < 2 ^ 31"
    and "distinct (kvec_addrs kv)"
  shows "scoutfs_kvec_be_dec nr (scoutfs_kvec_be_inc nr h kv) kv = h \<and>
         kvec_bytes (scoutfs_kvec_be_dec nr (scoutfs_kvec_be_inc nr h kv) kv) kv = kvec_bytes h kv \<and>
         be_val (kvec_bytes (scoutfs_kvec_be_inc nr h kv) kv)
           = (be_val (kvec_bytes h kv) + 1) mod 256 ^ scoutfs_kvec_length kv \<and>
         be_val (kvec_bytes (scoutfs_kvec_be_dec nr h kv) kv)
           = (be_val (kvec_bytes h kv) + 256 ^ scoutfs_kvec_length kv - 1)
               mod 256 ^ scoutfs_kvec_length kv \<and>
         ((\<forall>b \<in> set (kvec_bytes h kv). b = 0xff) \<longrightarrow>
            (\<forall>b \<in> set (kvec_bytes (scoutfs_kvec_be_inc nr h kv) kv). b = 0)) \<and>
         ((\<forall>b \<in> set (kvec_bytes h kv). b = 0) \<longrightarrow>
            (\<forall>b \<in> set (kvec_bytes (scoutfs_kvec_be_dec nr h kv) kv). b = 0xff)) \<and>
         (\<forall>x. x \<notin> set (kvec_addrs kv) \<longrightarrow>
            scoutfs_kvec_be_inc nr h kv x = h x \<and> scoutfs_kvec_be_dec nr h kv x = h x)"
proof -
  define as where "as = rev (kvec_addrs kv)"
  have d: "distinct as" using assms(3) by (simp add: as_def)
  have inc: "\<And>g. scoutfs_kvec_be_inc nr g kv = fst (inc_addrs g as)"
    unfolding as_def by (rule scoutfs_kvec_be_inc_addrs[OF assms(1,2)])
  have dec: "\<And>g. scoutfs_kvec_be_dec nr g kv = fst (dec_addrs g as)"
    unfolding as_def by (rule scoutfs_kvec_be_dec_addrs[OF assms(1,2)])
  have val: "\<And>g. be_val (kvec_bytes g kv) = le_val (map g as)"
    by (simp add: be_val_le_val kvec_bytes_def as_def rev_map)
  have len: "length as = scoutfs_kvec_length kv"
    by (simp add: as_def length_kvec_addrs)
  have set_eq: "\<And>g. set (kvec_bytes g kv) = g ` set as"
    by (simp add: kvec_bytes_def as_def)
  have rt: "scoutfs_kvec_be_dec nr (scoutfs_kvec_be_inc nr h kv) kv = h"
    unfolding inc dec by (rule dec_inc_addrs[OF d])
  have v1: "be_val (kvec_bytes (scoutfs_kvec_be_inc nr h kv) kv)
           = (be_val (kvec_bytes h kv) + 1) mod 256 ^ scoutfs_kvec_length kv"
    unfolding val inc len[symmetric] by (rule inc_addrs_mod[OF d])
  have v2: "be_val (kvec_bytes (scoutfs_kvec_be_dec nr h kv) kv)
           = (be_val (kvec_bytes h kv) + 256 ^ scoutfs_kvec_length kv - 1)
               mod 256 ^ scoutfs_kvec_length kv"
    unfolding val dec len[symmetric] by (rule dec_addrs_mod[OF d])
  have e1: "(\<forall>b \<in> set (kvec_bytes h kv). b = 0xff) \<longrightarrow>
            (\<forall>b \<in> set (kvec_bytes (scoutfs_kvec_be_inc nr h kv) kv). b = 0)"
    unfolding set_eq inc using inc_addrs_all_ff[OF d, of h] by auto
  have e2: "(\<forall>b \<in> set (kvec_bytes h kv). b = 0) \<longrightarrow>
            (\<forall>b \<in> set (kvec_bytes (scoutfs_kvec_be_dec nr h kv) kv). b = 0xff)"
    unfolding set_eq dec using dec_addrs_all_zero[OF d, of h] by auto
  have o: "\<forall>x. x \<notin> set (kvec_addrs kv) \<longrightarrow>
            scoutfs_kvec_be_inc nr h kv x = h x \<and> scoutfs_kvec_be_dec nr h kv x = h x"
    unfolding inc dec by (simp add: as_def inc_addrs_other dec_addrs_other)
  from rt v1 v2 e1 e2 o show ?thesis by simp
qed

text \<open>The three bytes 01 ff ff, split as ["01 ff","ff"]: the increment gives 02 00 00.\<close>

definition ex_heap_num :: heap where
  "ex_heap_num = (\<lambda>_. 0)(10 := 0x01, 11 := 0xff, 20 := 0xff)"

lemmas be_eval =
  scoutfs_kvec_be_inc_def scoutfs_kvec_be_dec_def be_inc_loop.simps be_dec_loop.simps
  be_inc_bytes.simps be_dec_bytes.simps size_t_to_int_def Let_def

lemma ex_be_inc_bytes:
  "kvec_bytes (scoutfs_kvec_be_inc 2 ex_heap_num
      [\<lparr>iov_base = 10, iov_len = 2\<rparr>, \<lparr>iov_base = 20, iov_len = 1\<rparr>])
      [\<lparr>iov_base = 10, iov_len = 2\<rparr>, \<lparr>iov_base = 20, iov_len = 1\<rparr>] = [0x02, 0x00, 0x00]"
  by (simp add: be_eval kvec_bytes_eval ex_heap_num_def)

theorem kvec_be_inc_dec_witness:
  "kvec_bytes ex_heap_num [\<lparr>iov_base = 10, iov_len = 2\<rparr>, \<lparr>iov_base = 20, iov_len = 1\<rparr>]
     = [0x01, 0xff, 0xff] \<and>
   kvec_bytes (scoutfs_kvec_be_inc 2 ex_heap_num
      [\<lparr>iov_base = 10, iov_len = 2\<rparr>, \<lparr>iov_base = 20, iov_len = 1\<rparr>])
      [\<lparr>iov_base = 10, iov_len = 2\<rparr>, \<lparr>iov_base = 20, iov_len = 1\<rparr>] = [0x02, 0x00, 0x00] \<and>
   scoutfs_kvec_be_dec 2
     (scoutfs_kvec_be_inc 2 ex_heap_num
        [\<lparr>iov_base = 10, iov_len = 2\<rparr>, \<lparr>iov_base = 20, iov_len = 1\<rparr>])
     [\<lparr>iov_base = 10, iov_len = 2\<rparr>, \<lparr>iov_base = 20, iov_len = 1\<rparr>] = ex_heap_num"
proof -
  let ?kv = "[\<lparr>iov_base = 10, iov_len = 2\<rparr>, \<lparr>iov_base = 20, iov_len = 1\<rparr>]"
  have l: "length ?kv = 2" by simp
  have s: "\<forall>s \<in> set ?kv. iov_len s < 2 ^ 31" by simp
  have d: "distinct (kvec_addrs ?kv)" by (simp add: kvec_bytes_eval)
  have b: "kvec_bytes ex_heap_num ?kv = [0x01, 0xff, 0xff]"
    by (simp add: kvec_bytes_eval ex_heap_num_def)
  from kvec_be_inc_dec[OF l s d, of ex_heap_num] b ex_be_inc_bytes show ?thesis
    by simp
qed

section \<open>Release (kvec.c)\<close>

text \<open>
  The allocator's state is the set of live allocations; \<open>kfree\<close> removes a pointer from it
  and ignores \<open>NULL\<close>.
\<close>

definition kfree :: "addr set \<Rightarrow> addr \<Rightarrow> addr set" where
  "kfree live p = (if p = NULL then live else live - {p})"

function kvec_kfree_loop :: "nat \<Rightarrow> addr set \<Rightarrow> kvec list \<Rightarrow> nat \<Rightarrow> addr set \<times> kvec list" where
  "kvec_kfree_loop nr live kv i =
     (if i < nr
      then kvec_kfree_loop nr (kfree live (iov_base (kv ! i)))
             (kv[i := (kv ! i)\<lparr>iov_base := NULL\<rparr>]) (i + 1)
      else (live, kv))"
  by pat_completeness auto
termination
  by (relation "measure (\<lambda>(nr, live, kv, i). nr - i)") auto

declare kvec_kfree_loop.simps [simp del]

definition scoutfs_kvec_kfree :: "nat \<Rightarrow> addr set \<Rightarrow> kvec list \<Rightarrow> addr set \<times> kvec list" where
  "scoutfs_kvec_kfree nr live kv = kvec_kfree_loop nr live kv 0"

lemma kvec_kfree_loop_result:
  "i \<le> nr \<Longrightarrow> length kv = nr \<Longrightarrow>
   kvec_kfree_loop nr live kv i =
     (live - (iov_base ` set (drop i kv) - {NULL}),
      take i kv @ map (\<lambda>s. s\<lparr>iov_base := NULL\<rparr>) (drop i kv))"
proof (induction nr live kv i rule: kvec_kfree_loop.induct)
  case (1 nr live kv i)
  show ?case
  proof (cases "i < nr")
    case True
    let ?kv = "kv[i := (kv ! i)\<lparr>iov_base := NULL\<rparr>]"
    have dr: "drop i kv = kv ! i # drop (Suc i) kv"
      using True "1.prems" by (simp add: Cons_nth_drop_Suc)
    have ih: "kvec_kfree_loop nr (kfree live (iov_base (kv ! i))) ?kv (i + 1) =
      (kfree live (iov_base (kv ! i)) - (iov_base ` set (drop (i + 1) ?kv) - {NULL}),
       take (i + 1) ?kv @ map (\<lambda>s. s\<lparr>iov_base := NULL\<rparr>) (drop (i + 1) ?kv))"
      using True "1.prems" by (intro "1.IH") simp_all
    have t: "take (i + 1) ?kv = take i kv @ [(kv ! i)\<lparr>iov_base := NULL\<rparr>]"
      using True "1.prems" by (simp add: take_Suc_conv_app_nth)
    have d: "drop (i + 1) ?kv = drop (Suc i) kv"
      by simp
    have s: "kfree live (iov_base (kv ! i)) - (iov_base ` set (drop (Suc i) kv) - {NULL})
             = live - (iov_base ` set (drop i kv) - {NULL})"
      unfolding dr by (auto simp: kfree_def)
    have unf: "kvec_kfree_loop nr live kv i =
        kvec_kfree_loop nr (kfree live (iov_base (kv ! i))) ?kv (i + 1)"
      using True by (subst kvec_kfree_loop.simps) simp
    show ?thesis
      unfolding unf ih t d s by (simp add: dr)
  next
    case False
    with "1.prems" have "i = nr" by simp
    then show ?thesis
      using "1.prems" by (subst kvec_kfree_loop.simps) simp
  qed
qed

text \<open>
  C8 (release), as the code has it. \<open>scoutfs_kvec_kfree\<close> frees every non-null
  \<open>iov_base\<close> of the vector and sets every \<open>iov_base\<close> to \<open>NULL\<close>. It does not write
  \<open>iov_len\<close>: the segment lengths, and so the length of the vector, are what they were.
\<close>

theorem kvec_kfree_pointers_only:
  assumes "length kv = nr"
  shows "snd (scoutfs_kvec_kfree nr live kv) = map (\<lambda>s. s\<lparr>iov_base := NULL\<rparr>) kv \<and>
         fst (scoutfs_kvec_kfree nr live kv) = live - (iov_base ` set kv - {NULL}) \<and>
         (\<forall>s \<in> set (snd (scoutfs_kvec_kfree nr live kv)). iov_base s = NULL) \<and>
         map iov_len (snd (scoutfs_kvec_kfree nr live kv)) = map iov_len kv \<and>
         scoutfs_kvec_length (snd (scoutfs_kvec_kfree nr live kv)) = scoutfs_kvec_length kv"
  using assms kvec_kfree_loop_result[of 0 nr kv live]
  by (simp add: scoutfs_kvec_kfree_def scoutfs_kvec_length_def comp_def)

theorem kvec_kfree_pointers_only_witness:
  "scoutfs_kvec_kfree 2 {100, 200, 300}
      [\<lparr>iov_base = 100, iov_len = 3\<rparr>, \<lparr>iov_base = NULL, iov_len = 0\<rparr>]
     = ({200, 300}, [\<lparr>iov_base = NULL, iov_len = 3\<rparr>, \<lparr>iov_base = NULL, iov_len = 0\<rparr>])"
proof -
  let ?kv = "[\<lparr>iov_base = 100, iov_len = 3\<rparr>, \<lparr>iov_base = NULL, iov_len = 0\<rparr>]"
  have l: "length ?kv = 2" by simp
  from kvec_kfree_pointers_only[OF l, of "{100, 200, 300}"] show ?thesis
    by (auto simp: NULL_def prod_eq_iff)
qed

text \<open>
  C8 as the spec states it fails: releasing a vector with one 3-byte segment leaves that
  segment's length at 3, and the length of the vector at 3.
\<close>

theorem kvec_kfree_lengths_counterexample:
  "iov_len (snd (scoutfs_kvec_kfree 1 {100} [\<lparr>iov_base = 100, iov_len = 3\<rparr>]) ! 0) \<noteq> 0 \<and>
   scoutfs_kvec_length (snd (scoutfs_kvec_kfree 1 {100} [\<lparr>iov_base = 100, iov_len = 3\<rparr>])) \<noteq> 0"
  by (simp add: scoutfs_kvec_kfree_def kvec_kfree_loop.simps scoutfs_kvec_length_def)

section \<open>The superblock store (super.c, src/unnamed/part_000)\<close>

text \<open>
  The constants of format.h, which is not among the sources, are parameters: the first
  block number of the ring of superblock slots, the number of slots, the identifier every
  superblock carries, and the values the statistics report copies out.
\<close>

record format =
  SCOUTFS_SUPER_BLKNO :: nat
  SCOUTFS_SUPER_NR :: nat
  SCOUTFS_SUPER_ID :: u64
  SCOUTFS_SUPER_MAGIC :: int
  SCOUTFS_BLOCK_SIZE :: int
  SCOUTFS_NAME_LEN :: int

text \<open>
  The fields of the superblock that the code reads or writes. Little-endian fields hold
  their values (\<open>le64_to_cpu\<close> and \<open>cpu_to_le64\<close> are the identity on values); the field
  \<open>id\<close> is named \<open>super_id\<close>.
\<close>

record scoutfs_block_header =
  blkno :: u64
  seq :: u64

record scoutfs_super_block =
  super_id :: u64
  hdr :: scoutfs_block_header
  total_blocks :: u64
  uuid :: "u8 list"

record scoutfs_sb_info =
  super :: scoutfs_super_block
  stable_super :: scoutfs_super_block

text \<open>
  What the code does besides updating the mount state: the blocks it asks the block layer
  for, and the messages it prints (\<open>scoutfs_warn\<close>, \<open>scoutfs_err\<close>, \<open>scoutfs_info\<close>,
  \<open>trace_printk\<close>), in order.
\<close>

datatype event =
    Block_read u64
  | Warn_read nat
  | Warn_id nat u64
  | Err_no_super
  | Info_using int u64
  | Trace_seq u64

text \<open>
  The VFS \<open>struct super_block\<close>, as far as the code uses it: the device, as the result
  \<open>scoutfs_block_read\<close> gives for each block number (an error, also for a block whose
  checksum the block layer rejects, or the block's contents), the \<open>scoutfs_sb_info\<close>, and
  the events so far.
\<close>

record super_block =
  s_bdev :: "u64 \<Rightarrow> errno + scoutfs_super_block"
  s_fs_info :: scoutfs_sb_info
  s_events :: "event list"

definition emit :: "super_block \<Rightarrow> event \<Rightarrow> super_block" where
  "emit sb e = sb\<lparr>s_events := s_events sb @ [e]\<rparr>"

definition scoutfs_block_read :: "super_block \<Rightarrow> nat \<Rightarrow> (errno + scoutfs_super_block) \<times> super_block" where
  "scoutfs_block_read sb b = (s_bdev sb (of_nat b), emit sb (Block_read (of_nat b)))"

text \<open>
  The \<open>for\<close> loop of \<open>read_supers\<close>, with its locals \<open>found\<close> and \<open>i\<close>. The buffer head
  reference (\<open>scoutfs_block_put\<close>) has no effect on the state modelled here.
\<close>

function read_supers_loop :: "format \<Rightarrow> super_block \<Rightarrow> int \<Rightarrow> nat \<Rightarrow> super_block \<times> int" where
  "read_supers_loop fmt sb found i =
     (if i < SCOUTFS_SUPER_NR fmt
      then (let (bh, sb1) = scoutfs_block_read sb (SCOUTFS_SUPER_BLKNO fmt + i)
            in case bh of
                 Inl e \<Rightarrow> read_supers_loop fmt (emit sb1 (Warn_read i)) found (i + 1)
               | Inr sblk \<Rightarrow>
                   if super_id sblk \<noteq> SCOUTFS_SUPER_ID fmt
                   then read_supers_loop fmt (emit sb1 (Warn_id i (super_id sblk))) found (i + 1)
                   else if found < 0 \<or> seq (hdr sblk) > seq (hdr (super (s_fs_info sb1)))
                   then read_supers_loop fmt
                          (sb1\<lparr>s_fs_info := (s_fs_info sb1)\<lparr>super := sblk\<rparr>\<rparr>) (int i) (i + 1)
                   else read_supers_loop fmt sb1 found (i + 1))
      else (sb, found))"
  by pat_completeness auto
termination
  by (relation "measure (\<lambda>(fmt, sb, found, i). SCOUTFS_SUPER_NR fmt - i)") auto

declare read_supers_loop.simps [simp del]

definition read_supers :: "format \<Rightarrow> super_block \<Rightarrow> (errno + unit) \<times> super_block" where
  "read_supers fmt sb =
     (let (sb1, found) = read_supers_loop fmt sb (- 1) 0
      in if found < 0 then (Inl EINVAL, emit sb1 Err_no_super)
         else (let sb2 = emit sb1 (Info_using found (seq (hdr (super (s_fs_info sb1)))))
               in (Inr (), sb2\<lparr>s_fs_info := (s_fs_info sb2)\<lparr>stable_super := super (s_fs_info sb2)\<rparr>\<rparr>)))"

definition scoutfs_advance_dirty_super :: "format \<Rightarrow> super_block \<Rightarrow> super_block" where
  "scoutfs_advance_dirty_super fmt sb =
     (let sbi = s_fs_info sb;
          sbi1 = sbi\<lparr>stable_super := super sbi\<rparr>;
          super1 = (super sbi1)\<lparr>hdr := (hdr (super sbi1))\<lparr>blkno := blkno (hdr (super sbi1)) + 1\<rparr>\<rparr>;
          super2 = (if blkno (hdr super1) = of_nat (SCOUTFS_SUPER_BLKNO fmt + SCOUTFS_SUPER_NR fmt)
                  then super1\<lparr>hdr := (hdr super1)\<lparr>blkno := of_nat (SCOUTFS_SUPER_BLKNO fmt)\<rparr>\<rparr>
                  else super1);
          super3 = super2\<lparr>hdr := (hdr super2)\<lparr>seq := seq (hdr super2) + 1\<rparr>\<rparr>
      in emit (sb\<lparr>s_fs_info := sbi1\<lparr>super := super3\<rparr>\<rparr>) (Trace_seq (seq (hdr super3))))"

subsection \<open>Recovery: the scan of the replica slots\<close>

text \<open>
  Slot \<open>i\<close> of the ring, whether it is a valid candidate (readable, with the right
  identifier), its sequence number, and the events its scan produces.
\<close>

definition slot_blkno :: "format \<Rightarrow> nat \<Rightarrow> u64" where
  "slot_blkno fmt i = of_nat (SCOUTFS_SUPER_BLKNO fmt + i)"

definition slot_valid :: "format \<Rightarrow> super_block \<Rightarrow> nat \<Rightarrow> bool" where
  "slot_valid fmt sb i =
     (case s_bdev sb (slot_blkno fmt i) of
        Inl e \<Rightarrow> False
      | Inr sblk \<Rightarrow> super_id sblk = SCOUTFS_SUPER_ID fmt)"

definition slot_seq :: "format \<Rightarrow> super_block \<Rightarrow> nat \<Rightarrow> u64" where
  "slot_seq fmt sb i =
     (case s_bdev sb (slot_blkno fmt i) of Inl e \<Rightarrow> 0 | Inr sblk \<Rightarrow> seq (hdr sblk))"

definition valid_slots :: "format \<Rightarrow> super_block \<Rightarrow> nat set" where
  "valid_slots fmt sb = set (filter (slot_valid fmt sb) [0 ..< SCOUTFS_SUPER_NR fmt])"

definition slot_events :: "format \<Rightarrow> super_block \<Rightarrow> nat \<Rightarrow> event list" where
  "slot_events fmt sb i =
     Block_read (slot_blkno fmt i) #
     (case s_bdev sb (slot_blkno fmt i) of
        Inl e \<Rightarrow> [Warn_read i]
      | Inr sblk \<Rightarrow>
          if super_id sblk \<noteq> SCOUTFS_SUPER_ID fmt then [Warn_id i (super_id sblk)] else [])"

text \<open>
  The loop invariant after slots \<open>0..<i\<close>: either no slot so far was valid and nothing
  was stored, or \<open>found\<close> is a valid slot whose block is the current superblock, no valid
  slot so far has a higher sequence number, and none before \<open>found\<close> has an equal one.
\<close>

definition scan_inv :: "format \<Rightarrow> super_block \<Rightarrow> super_block \<Rightarrow> int \<Rightarrow> nat \<Rightarrow> bool" where
  "scan_inv fmt sb0 sb found i \<longleftrightarrow>
     s_bdev sb = s_bdev sb0 \<and>
     stable_super (s_fs_info sb) = stable_super (s_fs_info sb0) \<and>
     s_events sb = s_events sb0 @ concat (map (slot_events fmt sb0) [0 ..< i]) \<and>
     (if found < 0
      then (\<forall>j < i. \<not> slot_valid fmt sb0 j) \<and> s_fs_info sb = s_fs_info sb0
      else nat found < i \<and> slot_valid fmt sb0 (nat found) \<and>
           s_bdev sb0 (slot_blkno fmt (nat found)) = Inr (super (s_fs_info sb)) \<and>
           (\<forall>j < i. slot_valid fmt sb0 j \<longrightarrow>
              slot_seq fmt sb0 j \<le> slot_seq fmt sb0 (nat found) \<and>
              (j < nat found \<longrightarrow> slot_seq fmt sb0 j < slot_seq fmt sb0 (nat found))))"

lemma scan_inv_init: "scan_inv fmt sb sb (- 1) 0"
  by (simp add: scan_inv_def)

lemma scan_inv_step_error:
  assumes "scan_inv fmt sb0 sb found i" "s_bdev sb0 (slot_blkno fmt i) = Inl e"
  shows "scan_inv fmt sb0 (emit (emit sb (Block_read (slot_blkno fmt i))) (Warn_read i)) found (i + 1)"
  using assms
  by (auto simp: scan_inv_def emit_def slot_events_def slot_valid_def less_Suc_eq)

lemma scan_inv_step_bad_id:
  assumes "scan_inv fmt sb0 sb found i" "s_bdev sb0 (slot_blkno fmt i) = Inr sblk"
    "super_id sblk \<noteq> SCOUTFS_SUPER_ID fmt"
  shows "scan_inv fmt sb0
           (emit (emit sb (Block_read (slot_blkno fmt i))) (Warn_id i (super_id sblk))) found (i + 1)"
  using assms
  by (auto simp: scan_inv_def emit_def slot_events_def slot_valid_def less_Suc_eq)

lemma scan_inv_step_take:
  assumes "scan_inv fmt sb0 sb found i" "s_bdev sb0 (slot_blkno fmt i) = Inr sblk"
    "super_id sblk = SCOUTFS_SUPER_ID fmt"
    "found < 0 \<or> seq (hdr sblk) > seq (hdr (super (s_fs_info sb)))"
  shows "scan_inv fmt sb0
           ((emit sb (Block_read (slot_blkno fmt i)))
              \<lparr>s_fs_info := (s_fs_info (emit sb (Block_read (slot_blkno fmt i))))\<lparr>super := sblk\<rparr>\<rparr>)
           (int i) (i + 1)"
proof (cases "found < 0")
  case True
  with assms(1,2,3) show ?thesis
    by (auto simp: scan_inv_def emit_def slot_events_def slot_valid_def slot_seq_def less_Suc_eq)
next
  case False
  with assms(4) have gt: "seq (hdr sblk) > seq (hdr (super (s_fs_info sb)))" by simp
  from False assms(1) have cur: "s_bdev sb0 (slot_blkno fmt (nat found)) = Inr (super (s_fs_info sb))"
    and mx: "\<forall>j < i. slot_valid fmt sb0 j \<longrightarrow> slot_seq fmt sb0 j \<le> slot_seq fmt sb0 (nat found)"
    by (simp_all add: scan_inv_def)
  have sf: "slot_seq fmt sb0 (nat found) = seq (hdr (super (s_fs_info sb)))"
    by (simp add: slot_seq_def cur)
  have si: "slot_seq fmt sb0 i = seq (hdr sblk)"
    by (simp add: slot_seq_def assms(2))
  have "\<forall>j < i. slot_valid fmt sb0 j \<longrightarrow> slot_seq fmt sb0 j < slot_seq fmt sb0 i"
    using mx gt sf si by (metis le_less_trans)
  with assms(1,2,3) False show ?thesis
    by (auto simp: scan_inv_def emit_def slot_events_def slot_valid_def less_Suc_eq)
qed

lemma scan_inv_step_keep:
  assumes "scan_inv fmt sb0 sb found i" "s_bdev sb0 (slot_blkno fmt i) = Inr sblk"
    "super_id sblk = SCOUTFS_SUPER_ID fmt"
    "\<not> (found < 0 \<or> seq (hdr sblk) > seq (hdr (super (s_fs_info sb))))"
  shows "scan_inv fmt sb0 (emit sb (Block_read (slot_blkno fmt i))) found (i + 1)"
proof -
  from assms(4) have nn: "\<not> found < 0" and le: "seq (hdr sblk) \<le> seq (hdr (super (s_fs_info sb)))"
    by auto
  from nn assms(1) have cur: "s_bdev sb0 (slot_blkno fmt (nat found)) = Inr (super (s_fs_info sb))"
    and lt: "nat found < i"
    by (simp_all add: scan_inv_def)
  have sf: "slot_seq fmt sb0 (nat found) = seq (hdr (super (s_fs_info sb)))"
    by (simp add: slot_seq_def cur)
  have si: "slot_seq fmt sb0 i = seq (hdr sblk)"
    by (simp add: slot_seq_def assms(2))
  from assms(1,2,3) nn le lt sf si show ?thesis
    by (auto simp: scan_inv_def emit_def slot_events_def less_Suc_eq)
qed

lemma read_supers_loop_inv:
  "scan_inv fmt sb0 sb found i \<Longrightarrow> i \<le> SCOUTFS_SUPER_NR fmt \<Longrightarrow>
   scan_inv fmt sb0 (fst (read_supers_loop fmt sb found i)) (snd (read_supers_loop fmt sb found i))
     (SCOUTFS_SUPER_NR fmt)"
proof (induction fmt sb found i rule: read_supers_loop.induct)
  case (1 fmt sb found i)
  show ?case
  proof (cases "i < SCOUTFS_SUPER_NR fmt")
    case False
    with "1.prems" have "i = SCOUTFS_SUPER_NR fmt" by simp
    with "1.prems" show ?thesis
      by (subst (1 2) read_supers_loop.simps) simp
  next
    case True
    define sb1 where "sb1 = emit sb (Block_read (slot_blkno fmt i))"
    have rd: "scoutfs_block_read sb (SCOUTFS_SUPER_BLKNO fmt + i) = (s_bdev sb (slot_blkno fmt i), sb1)"
      by (simp add: scoutfs_block_read_def sb1_def slot_blkno_def)
    have dev: "s_bdev sb = s_bdev sb0"
      using "1.prems"(1) by (simp add: scan_inv_def)
    have le: "i + 1 \<le> SCOUTFS_SUPER_NR fmt" using True by simp
    show ?thesis
    proof (cases "s_bdev sb (slot_blkno fmt i)")
      case (Inl e)
      have inv: "scan_inv fmt sb0 (emit sb1 (Warn_read i)) found (i + 1)"
        unfolding sb1_def using "1.prems"(1) Inl dev by (intro scan_inv_step_error) simp_all
      have unf: "read_supers_loop fmt sb found i =
                 read_supers_loop fmt (emit sb1 (Warn_read i)) found (i + 1)"
        using True Inl by (subst read_supers_loop.simps) (simp add: rd)
      show ?thesis
        unfolding unf by (rule "1.IH"(1)[OF True rd[symmetric] refl Inl inv le])
    next
      case (Inr sblk)
      show ?thesis
      proof (cases "super_id sblk \<noteq> SCOUTFS_SUPER_ID fmt")
        case bad: True
        have inv: "scan_inv fmt sb0 (emit sb1 (Warn_id i (super_id sblk))) found (i + 1)"
          unfolding sb1_def using "1.prems"(1) Inr dev bad by (intro scan_inv_step_bad_id) simp_all
        have unf: "read_supers_loop fmt sb found i =
                   read_supers_loop fmt (emit sb1 (Warn_id i (super_id sblk))) found (i + 1)"
          using True Inr bad by (subst read_supers_loop.simps) (simp add: rd)
        show ?thesis
          unfolding unf by (rule "1.IH"(2)[OF True rd[symmetric] refl Inr bad inv le])
      next
        case good: False
        have info: "s_fs_info sb1 = s_fs_info sb" by (simp add: sb1_def emit_def)
        show ?thesis
        proof (cases "found < 0 \<or> seq (hdr sblk) > seq (hdr (super (s_fs_info sb1)))")
          case take: True
          let ?sb = "sb1\<lparr>s_fs_info := (s_fs_info sb1)\<lparr>super := sblk\<rparr>\<rparr>"
          have inv: "scan_inv fmt sb0 ?sb (int i) (i + 1)"
            unfolding sb1_def using "1.prems"(1) Inr dev good take info
            by (intro scan_inv_step_take) (simp_all add: sb1_def)
          have unf: "read_supers_loop fmt sb found i = read_supers_loop fmt ?sb (int i) (i + 1)"
            using True Inr good take by (subst read_supers_loop.simps) (simp add: rd)
          show ?thesis
            unfolding unf by (rule "1.IH"(3)[OF True rd[symmetric] refl Inr good take inv le])
        next
          case keep: False
          have inv: "scan_inv fmt sb0 sb1 found (i + 1)"
            unfolding sb1_def using "1.prems"(1) Inr dev good keep info
            by (intro scan_inv_step_keep[where sblk = sblk]) (simp_all add: sb1_def)
          have unf: "read_supers_loop fmt sb found i = read_supers_loop fmt sb1 found (i + 1)"
            using True Inr good keep by (subst read_supers_loop.simps) (simp add: rd)
          show ?thesis
            unfolding unf by (rule "1.IH"(4)[OF True rd[symmetric] refl Inr good keep inv le])
        qed
      qed
    qed
  qed
qed

lemma valid_slots_iff:
  "k \<in> valid_slots fmt sb \<longleftrightarrow> k < SCOUTFS_SUPER_NR fmt \<and> slot_valid fmt sb k"
  by (auto simp: valid_slots_def)

lemma read_supers_result:
  fixes fmt sb
  defines "r \<equiv> read_supers fmt sb"
    and "scan \<equiv> concat (map (slot_events fmt sb) [0 ..< SCOUTFS_SUPER_NR fmt])"
  shows "s_bdev (snd r) = s_bdev sb"
    and "valid_slots fmt sb = {} \<Longrightarrow>
           fst r = Inl EINVAL \<and> s_fs_info (snd r) = s_fs_info sb \<and>
           s_events (snd r) = s_events sb @ scan @ [Err_no_super]"
    and "valid_slots fmt sb \<noteq> {} \<Longrightarrow>
           \<exists>k \<in> valid_slots fmt sb.
             fst r = Inr () \<and>
             s_bdev sb (slot_blkno fmt k) = Inr (super (s_fs_info (snd r))) \<and>
             stable_super (s_fs_info (snd r)) = super (s_fs_info (snd r)) \<and>
             (\<forall>j \<in> valid_slots fmt sb.
                slot_seq fmt sb j \<le> slot_seq fmt sb k \<and>
                (j < k \<longrightarrow> slot_seq fmt sb j < slot_seq fmt sb k)) \<and>
             s_events (snd r) = s_events sb @ scan @ [Info_using (int k) (slot_seq fmt sb k)]"
proof -
  define sb1 where "sb1 = fst (read_supers_loop fmt sb (- 1) 0)"
  define found where "found = snd (read_supers_loop fmt sb (- 1) 0)"
  have inv: "scan_inv fmt sb sb1 found (SCOUTFS_SUPER_NR fmt)"
    unfolding sb1_def found_def
    by (rule read_supers_loop_inv[OF scan_inv_init]) simp
  have loop: "read_supers_loop fmt sb (- 1) 0 = (sb1, found)"
    by (simp add: sb1_def found_def)
  have ev: "s_events sb1 = s_events sb @ scan" and dev: "s_bdev sb1 = s_bdev sb"
    using inv by (simp_all add: scan_inv_def scan_def)
  show "s_bdev (snd r) = s_bdev sb"
    using dev by (simp add: r_def read_supers_def loop emit_def Let_def)
  show "fst r = Inl EINVAL \<and> s_fs_info (snd r) = s_fs_info sb \<and>
           s_events (snd r) = s_events sb @ scan @ [Err_no_super]"
    if "valid_slots fmt sb = {}"
  proof -
    have neg: "found < 0"
    proof (rule ccontr)
      assume "\<not> found < 0"
      with inv have "nat found \<in> valid_slots fmt sb"
        by (simp add: scan_inv_def valid_slots_iff)
      with that show False by simp
    qed
    with inv have "s_fs_info sb1 = s_fs_info sb" by (simp add: scan_inv_def)
    with neg ev show ?thesis
      by (simp add: r_def read_supers_def loop emit_def)
  qed
  show "\<exists>k \<in> valid_slots fmt sb.
             fst r = Inr () \<and>
             s_bdev sb (slot_blkno fmt k) = Inr (super (s_fs_info (snd r))) \<and>
             stable_super (s_fs_info (snd r)) = super (s_fs_info (snd r)) \<and>
             (\<forall>j \<in> valid_slots fmt sb.
                slot_seq fmt sb j \<le> slot_seq fmt sb k \<and>
                (j < k \<longrightarrow> slot_seq fmt sb j < slot_seq fmt sb k)) \<and>
             s_events (snd r) = s_events sb @ scan @ [Info_using (int k) (slot_seq fmt sb k)]"
    if "valid_slots fmt sb \<noteq> {}"
  proof -
    from that obtain j where j: "j < SCOUTFS_SUPER_NR fmt" "slot_valid fmt sb j"
      by (auto simp: valid_slots_iff)
    have nn: "\<not> found < 0"
    proof
      assume "found < 0"
      with inv j show False by (simp add: scan_inv_def)
    qed
    define k where "k = nat found"
    have fk: "found = int k" using nn by (simp add: k_def)
    from inv nn have kv: "k \<in> valid_slots fmt sb"
      and cur: "s_bdev sb (slot_blkno fmt k) = Inr (super (s_fs_info sb1))"
      and mx: "\<forall>j \<in> valid_slots fmt sb.
                slot_seq fmt sb j \<le> slot_seq fmt sb k \<and>
                (j < k \<longrightarrow> slot_seq fmt sb j < slot_seq fmt sb k)"
      by (simp_all add: scan_inv_def valid_slots_iff k_def)
    have sq: "slot_seq fmt sb k = seq (hdr (super (s_fs_info sb1)))"
      by (simp add: slot_seq_def cur)
    have "fst r = Inr () \<and>
          s_bdev sb (slot_blkno fmt k) = Inr (super (s_fs_info (snd r))) \<and>
          stable_super (s_fs_info (snd r)) = super (s_fs_info (snd r)) \<and>
          s_events (snd r) = s_events sb @ scan @ [Info_using (int k) (slot_seq fmt sb k)]"
      using nn cur ev by (simp add: r_def read_supers_def loop emit_def Let_def sq fk)
    with kv mx show ?thesis by blast
  qed
qed

lemma read_supers_unique_max:
  assumes "k \<in> valid_slots fmt sb"
    and "\<forall>j \<in> valid_slots fmt sb. j \<noteq> k \<longrightarrow> slot_seq fmt sb j < slot_seq fmt sb k"
  shows "fst (read_supers fmt sb) = Inr () \<and>
         s_bdev sb (slot_blkno fmt k) = Inr (super (s_fs_info (snd (read_supers fmt sb)))) \<and>
         stable_super (s_fs_info (snd (read_supers fmt sb)))
           = super (s_fs_info (snd (read_supers fmt sb)))"
proof -
  from assms(1) have "valid_slots fmt sb \<noteq> {}" by auto
  from read_supers_result(3)[OF this] obtain k' where k': "k' \<in> valid_slots fmt sb"
    "fst (read_supers fmt sb) = Inr ()"
    "s_bdev sb (slot_blkno fmt k') = Inr (super (s_fs_info (snd (read_supers fmt sb))))"
    "stable_super (s_fs_info (snd (read_supers fmt sb))) = super (s_fs_info (snd (read_supers fmt sb)))"
    "\<forall>j \<in> valid_slots fmt sb. slot_seq fmt sb j \<le> slot_seq fmt sb k'"
    by blast
  have "k' = k"
  proof (rule ccontr)
    assume "k' \<noteq> k"
    with assms(2) k'(1) have "slot_seq fmt sb k' < slot_seq fmt sb k" by simp
    moreover from k'(5) assms(1) have "slot_seq fmt sb k \<le> slot_seq fmt sb k'" by simp
    ultimately show False by simp
  qed
  with k' show ?thesis by simp
qed

lemma read_supers_permuted:
  assumes bij: "bij_betw p {..< SCOUTFS_SUPER_NR fmt} {..< SCOUTFS_SUPER_NR fmt}"
    and dev: "\<forall>i < SCOUTFS_SUPER_NR fmt.
                s_bdev sb2 (slot_blkno fmt i) = s_bdev sb (slot_blkno fmt (p i))"
    and k: "k \<in> valid_slots fmt sb"
    and mx: "\<forall>j \<in> valid_slots fmt sb. j \<noteq> k \<longrightarrow> slot_seq fmt sb j < slot_seq fmt sb k"
  shows "fst (read_supers fmt sb2) = Inr () \<and>
         super (s_fs_info (snd (read_supers fmt sb2)))
           = super (s_fs_info (snd (read_supers fmt sb)))"
proof -
  from k have kn: "k < SCOUTFS_SUPER_NR fmt" by (simp add: valid_slots_iff)
  with bij have "k \<in> p ` {..< SCOUTFS_SUPER_NR fmt}"
    by (simp add: bij_betw_imp_surj_on)
  then obtain k2 where k2: "k2 < SCOUTFS_SUPER_NR fmt" "p k2 = k"
    by auto
  have pin: "\<And>i. i < SCOUTFS_SUPER_NR fmt \<Longrightarrow> p i < SCOUTFS_SUPER_NR fmt"
    using bij by (auto simp: bij_betw_def)
  have inj: "\<And>i j. i < SCOUTFS_SUPER_NR fmt \<Longrightarrow> j < SCOUTFS_SUPER_NR fmt \<Longrightarrow> p i = p j \<Longrightarrow> i = j"
    using bij by (auto simp: bij_betw_def inj_on_def)
  have v2: "\<And>i. i < SCOUTFS_SUPER_NR fmt \<Longrightarrow> slot_valid fmt sb2 i = slot_valid fmt sb (p i)"
    and s2: "\<And>i. i < SCOUTFS_SUPER_NR fmt \<Longrightarrow> slot_seq fmt sb2 i = slot_seq fmt sb (p i)"
    using dev by (simp_all add: slot_valid_def slot_seq_def)
  have k2v: "k2 \<in> valid_slots fmt sb2"
    using k k2 by (simp add: valid_slots_iff v2)
  have mx2: "\<forall>j \<in> valid_slots fmt sb2. j \<noteq> k2 \<longrightarrow> slot_seq fmt sb2 j < slot_seq fmt sb2 k2"
  proof (intro ballI impI)
    fix j assume j: "j \<in> valid_slots fmt sb2" "j \<noteq> k2"
    then have jn: "j < SCOUTFS_SUPER_NR fmt" and jv: "slot_valid fmt sb2 j"
      by (simp_all add: valid_slots_iff)
    from jv have "slot_valid fmt sb (p j)"
      by (simp add: v2[OF jn])
    then have "p j \<in> valid_slots fmt sb" using pin[OF jn] by (simp add: valid_slots_iff)
    moreover have "p j \<noteq> k" using inj[OF jn k2(1)] j(2) k2(2) by auto
    ultimately have "slot_seq fmt sb (p j) < slot_seq fmt sb k" using mx by simp
    then show "slot_seq fmt sb2 j < slot_seq fmt sb2 k2"
      using jn k2 by (simp add: s2)
  qed
  from read_supers_unique_max[OF k2v mx2] read_supers_unique_max[OF k mx] dev k2
  show ?thesis by simp
qed

text \<open>
  C1 (recovery). \<open>read_supers\<close> reads every slot of the ring in turn; a slot that cannot
  be read or carries the wrong identifier only adds a warning and the scan goes on. With
  no valid slot it fails with \<open>EINVAL\<close> and leaves the mount state as it was; with a valid
  slot it succeeds, and the current superblock is the block of a valid slot whose
  sequence number no valid slot exceeds. When a valid
  slot \<open>k\<close> has a sequence number strictly above every other valid slot's, \<open>read_supers\<close>
  succeeds and both the current and the stable superblock are the block of slot \<open>k\<close>;
  this does not depend on where in the ring that block lies: on a device holding the same
  blocks in any other order, the same superblock is selected.
\<close>

theorem read_supers_selects_highest:
  "s_bdev (snd (read_supers fmt sb)) = s_bdev sb \<and>
   (\<exists>e. s_events (snd (read_supers fmt sb)) =
          s_events sb @ concat (map (slot_events fmt sb) [0 ..< SCOUTFS_SUPER_NR fmt]) @ [e]) \<and>
   (valid_slots fmt sb = {} \<longrightarrow>
      fst (read_supers fmt sb) = Inl EINVAL \<and>
      s_fs_info (snd (read_supers fmt sb)) = s_fs_info sb) \<and>
   (valid_slots fmt sb \<noteq> {} \<longrightarrow>
      fst (read_supers fmt sb) = Inr () \<and>
      (\<exists>k \<in> valid_slots fmt sb.
         s_bdev sb (slot_blkno fmt k) = Inr (super (s_fs_info (snd (read_supers fmt sb)))) \<and>
         (\<forall>j \<in> valid_slots fmt sb. slot_seq fmt sb j \<le> slot_seq fmt sb k))) \<and>
   (\<forall>k. k \<in> valid_slots fmt sb \<and>
        (\<forall>j \<in> valid_slots fmt sb. j \<noteq> k \<longrightarrow> slot_seq fmt sb j < slot_seq fmt sb k) \<longrightarrow>
        fst (read_supers fmt sb) = Inr () \<and>
        s_bdev sb (slot_blkno fmt k) = Inr (super (s_fs_info (snd (read_supers fmt sb)))) \<and>
        stable_super (s_fs_info (snd (read_supers fmt sb)))
          = super (s_fs_info (snd (read_supers fmt sb))) \<and>
        (\<forall>sb2 p. bij_betw p {..< SCOUTFS_SUPER_NR fmt} {..< SCOUTFS_SUPER_NR fmt} \<and>
           (\<forall>i < SCOUTFS_SUPER_NR fmt.
              s_bdev sb2 (slot_blkno fmt i) = s_bdev sb (slot_blkno fmt (p i))) \<longrightarrow>
           fst (read_supers fmt sb2) = Inr () \<and>
           super (s_fs_info (snd (read_supers fmt sb2)))
             = super (s_fs_info (snd (read_supers fmt sb)))))"
proof (intro conjI allI impI)
  show "s_bdev (snd (read_supers fmt sb)) = s_bdev sb"
    by (rule read_supers_result(1))
next
  show "\<exists>e. s_events (snd (read_supers fmt sb)) =
          s_events sb @ concat (map (slot_events fmt sb) [0 ..< SCOUTFS_SUPER_NR fmt]) @ [e]"
  proof (cases "valid_slots fmt sb = {}")
    case True
    from read_supers_result(2)[OF this] show ?thesis by blast
  next
    case False
    from read_supers_result(3)[OF this] show ?thesis by blast
  qed
next
  assume "valid_slots fmt sb = {}"
  from read_supers_result(2)[OF this]
  show "fst (read_supers fmt sb) = Inl EINVAL" "s_fs_info (snd (read_supers fmt sb)) = s_fs_info sb"
    by simp_all
next
  assume "valid_slots fmt sb \<noteq> {}"
  from read_supers_result(3)[OF this]
  show "fst (read_supers fmt sb) = Inr ()"
    "\<exists>k \<in> valid_slots fmt sb.
         s_bdev sb (slot_blkno fmt k) = Inr (super (s_fs_info (snd (read_supers fmt sb)))) \<and>
         (\<forall>j \<in> valid_slots fmt sb. slot_seq fmt sb j \<le> slot_seq fmt sb k)"
    by blast+
next
  fix k
  assume a: "k \<in> valid_slots fmt sb \<and>
        (\<forall>j \<in> valid_slots fmt sb. j \<noteq> k \<longrightarrow> slot_seq fmt sb j < slot_seq fmt sb k)"
  then have k: "k \<in> valid_slots fmt sb"
    and mx: "\<forall>j \<in> valid_slots fmt sb. j \<noteq> k \<longrightarrow> slot_seq fmt sb j < slot_seq fmt sb k"
    by simp_all
  from read_supers_unique_max[OF k mx]
  show "fst (read_supers fmt sb) = Inr ()"
    "s_bdev sb (slot_blkno fmt k) = Inr (super (s_fs_info (snd (read_supers fmt sb))))"
    "stable_super (s_fs_info (snd (read_supers fmt sb)))
          = super (s_fs_info (snd (read_supers fmt sb)))"
    by simp_all
  fix sb2 :: super_block and p
  assume b: "bij_betw p {..< SCOUTFS_SUPER_NR fmt} {..< SCOUTFS_SUPER_NR fmt} \<and>
           (\<forall>i < SCOUTFS_SUPER_NR fmt.
              s_bdev sb2 (slot_blkno fmt i) = s_bdev sb (slot_blkno fmt (p i)))"
  then have bij: "bij_betw p {..< SCOUTFS_SUPER_NR fmt} {..< SCOUTFS_SUPER_NR fmt}"
    and dev: "\<forall>i < SCOUTFS_SUPER_NR fmt.
              s_bdev sb2 (slot_blkno fmt i) = s_bdev sb (slot_blkno fmt (p i))"
    by simp_all
  from read_supers_permuted[OF bij dev k mx]
  show "fst (read_supers fmt sb2) = Inr ()"
    "super (s_fs_info (snd (read_supers fmt sb2))) = super (s_fs_info (snd (read_supers fmt sb)))"
    by simp_all
qed

text \<open>
  C10 (ties). When some slot is valid, \<open>read_supers\<close> succeeds with a valid slot \<open>k\<close> of
  maximal sequence number such that every valid slot with the same sequence number has an
  index of at least \<open>k\<close>: the lowest-indexed one. The current superblock is that slot's
  block and the final message names slot \<open>k\<close>.
\<close>

theorem read_supers_tie_lowest_index:
  "valid_slots fmt sb \<noteq> {} \<longrightarrow>
     (\<exists>k \<in> valid_slots fmt sb.
        (\<forall>j \<in> valid_slots fmt sb. slot_seq fmt sb j \<le> slot_seq fmt sb k) \<and>
        (\<forall>j \<in> valid_slots fmt sb. slot_seq fmt sb j = slot_seq fmt sb k \<longrightarrow> k \<le> j) \<and>
        fst (read_supers fmt sb) = Inr () \<and>
        s_bdev sb (slot_blkno fmt k) = Inr (super (s_fs_info (snd (read_supers fmt sb)))) \<and>
        last (s_events (snd (read_supers fmt sb))) = Info_using (int k) (slot_seq fmt sb k))"
proof
  assume "valid_slots fmt sb \<noteq> {}"
  from read_supers_result(3)[OF this] obtain k where k: "k \<in> valid_slots fmt sb"
    "fst (read_supers fmt sb) = Inr ()"
    "s_bdev sb (slot_blkno fmt k) = Inr (super (s_fs_info (snd (read_supers fmt sb))))"
    "\<forall>j \<in> valid_slots fmt sb.
        slot_seq fmt sb j \<le> slot_seq fmt sb k \<and> (j < k \<longrightarrow> slot_seq fmt sb j < slot_seq fmt sb k)"
    "s_events (snd (read_supers fmt sb)) =
       s_events sb @ concat (map (slot_events fmt sb) [0 ..< SCOUTFS_SUPER_NR fmt])
         @ [Info_using (int k) (slot_seq fmt sb k)]"
    by blast
  have "\<forall>j \<in> valid_slots fmt sb. slot_seq fmt sb j = slot_seq fmt sb k \<longrightarrow> k \<le> j"
    using k(4) by (metis less_irrefl not_le_imp_less)
  moreover have "last (s_events (snd (read_supers fmt sb))) = Info_using (int k) (slot_seq fmt sb k)"
    by (simp add: k(5))
  ultimately show "\<exists>k \<in> valid_slots fmt sb.
        (\<forall>j \<in> valid_slots fmt sb. slot_seq fmt sb j \<le> slot_seq fmt sb k) \<and>
        (\<forall>j \<in> valid_slots fmt sb. slot_seq fmt sb j = slot_seq fmt sb k \<longrightarrow> k \<le> j) \<and>
        fst (read_supers fmt sb) = Inr () \<and>
        s_bdev sb (slot_blkno fmt k) = Inr (super (s_fs_info (snd (read_supers fmt sb)))) \<and>
        last (s_events (snd (read_supers fmt sb))) = Info_using (int k) (slot_seq fmt sb k)"
    using k by blast
qed

text \<open>A ring of two slots at blocks 16 and 17, and devices holding two superblocks.\<close>

definition ex_fmt :: format where
  "ex_fmt = \<lparr>SCOUTFS_SUPER_BLKNO = 16, SCOUTFS_SUPER_NR = 2, SCOUTFS_SUPER_ID = 0x1234,
             SCOUTFS_SUPER_MAGIC = 0x554f4353, SCOUTFS_BLOCK_SIZE = 4096, SCOUTFS_NAME_LEN = 255\<rparr>"

definition ex_super :: "u64 \<Rightarrow> u64 \<Rightarrow> u64 \<Rightarrow> scoutfs_super_block" where
  "ex_super b s t =
     \<lparr>super_id = 0x1234, hdr = \<lparr>blkno = b, seq = s\<rparr>, total_blocks = t,
      uuid = [0x01, 0x02, 0x03, 0x04, 0x10, 0x20, 0x30, 0x40,
              0xff, 0x00, 0xff, 0x00, 0x0f, 0x0f, 0xf0, 0xf0]\<rparr>"

definition ex_dev :: "scoutfs_super_block \<Rightarrow> scoutfs_super_block \<Rightarrow> u64 \<Rightarrow> errno + scoutfs_super_block" where
  "ex_dev s0 s1 b = (if b = 16 then Inr s0 else if b = 17 then Inr s1 else Inl EIO)"

definition ex_sb :: "(u64 \<Rightarrow> errno + scoutfs_super_block) \<Rightarrow> super_block" where
  "ex_sb dev =
     \<lparr>s_bdev = dev,
      s_fs_info = \<lparr>super = ex_super 0 0 0, stable_super = ex_super 0 0 0\<rparr>,
      s_events = []\<rparr>"


lemmas super_eval =
  valid_slots_def slot_valid_def slot_seq_def slot_blkno_def ex_fmt_def ex_sb_def ex_dev_def
  ex_super_def upt_conv_Cons

text \<open>
  An unreadable device gives \<open>EINVAL\<close>; with sequence numbers 7 and 8 the block with 8 is
  selected, in either slot.
\<close>

theorem read_supers_selects_highest_witness:
  "fst (read_supers ex_fmt (ex_sb (\<lambda>b. Inl EIO))) = Inl EINVAL \<and>
   fst (read_supers ex_fmt (ex_sb (ex_dev (ex_super 16 7 100) (ex_super 17 8 100)))) = Inr () \<and>
   super (s_fs_info (snd (read_supers ex_fmt
      (ex_sb (ex_dev (ex_super 16 7 100) (ex_super 17 8 100)))))) = ex_super 17 8 100 \<and>
   super (s_fs_info (snd (read_supers ex_fmt
      (ex_sb (ex_dev (ex_super 17 8 100) (ex_super 16 7 100)))))) = ex_super 17 8 100"
proof -
  let ?sb = "ex_sb (ex_dev (ex_super 16 7 100) (ex_super 17 8 100))"
  let ?sb2 = "ex_sb (ex_dev (ex_super 17 8 100) (ex_super 16 7 100))"
  have k: "1 \<in> valid_slots ex_fmt ?sb \<and>
           (\<forall>j \<in> valid_slots ex_fmt ?sb. j \<noteq> 1 \<longrightarrow> slot_seq ex_fmt ?sb j < slot_seq ex_fmt ?sb 1)"
    by (simp add: super_eval)
  have bij: "bij_betw (\<lambda>i. 1 - i) {..< SCOUTFS_SUPER_NR ex_fmt} {..< SCOUTFS_SUPER_NR ex_fmt}"
    by (rule bij_betw_byWitness[where f' = "\<lambda>i. 1 - i"]) (auto simp: ex_fmt_def)
  have dev: "\<forall>i < SCOUTFS_SUPER_NR ex_fmt.
      s_bdev ?sb2 (slot_blkno ex_fmt i) = s_bdev ?sb (slot_blkno ex_fmt (1 - i))"
    by (simp add: super_eval less_2_cases_iff)
  have blk: "s_bdev ?sb (slot_blkno ex_fmt 1) = Inr (ex_super 17 8 100)"
    by (simp add: super_eval)
  note t = read_supers_selects_highest[of ex_fmt ?sb, THEN conjunct2, THEN conjunct2,
      THEN conjunct2, THEN conjunct2, THEN spec, of 1, THEN mp, OF k]
  note t1 = t[THEN conjunct1] and t2 = t[THEN conjunct2, THEN conjunct1]
    and t4 = t[THEN conjunct2, THEN conjunct2, THEN conjunct2, THEN spec, of ?sb2,
      THEN spec, of "\<lambda>i. 1 - i", THEN mp, OF conjI[OF bij dev], THEN conjunct2]
  from t2 blk have e: "super (s_fs_info (snd (read_supers ex_fmt ?sb))) = ex_super 17 8 100"
    by simp
  have none: "valid_slots ex_fmt (ex_sb (\<lambda>b. Inl EIO)) = {}"
    by (simp add: super_eval)
  note t0 = read_supers_selects_highest[of ex_fmt "ex_sb (\<lambda>b. Inl EIO)", THEN conjunct2,
      THEN conjunct2, THEN conjunct1, THEN mp, OF none, THEN conjunct1]
  from t0 t1 e t4 show ?thesis by simp
qed

text \<open>Both slots with sequence number 7: slot 0 is selected.\<close>

theorem read_supers_tie_lowest_index_witness:
  "fst (read_supers ex_fmt (ex_sb (ex_dev (ex_super 16 7 100) (ex_super 17 7 200)))) = Inr () \<and>
   super (s_fs_info (snd (read_supers ex_fmt
      (ex_sb (ex_dev (ex_super 16 7 100) (ex_super 17 7 200)))))) = ex_super 16 7 100 \<and>
   last (s_events (snd (read_supers ex_fmt
      (ex_sb (ex_dev (ex_super 16 7 100) (ex_super 17 7 200)))))) = Info_using 0 7"
proof -
  let ?sb = "ex_sb (ex_dev (ex_super 16 7 100) (ex_super 17 7 200))"
  have v: "valid_slots ex_fmt ?sb = {0, 1}"
    by (auto simp: super_eval)
  have s: "slot_seq ex_fmt ?sb 0 = 7" "slot_seq ex_fmt ?sb 1 = 7"
    by (simp_all add: super_eval)
  have blk: "s_bdev ?sb (slot_blkno ex_fmt 0) = Inr (ex_super 16 7 100)"
    by (simp add: super_eval)
  have ne: "valid_slots ex_fmt ?sb \<noteq> {}"
    by (simp add: v)
  from read_supers_tie_lowest_index[of ex_fmt ?sb, THEN mp, OF ne] obtain k where k: "k \<in> {0, 1}"
    "\<forall>j \<in> {0, 1}. slot_seq ex_fmt ?sb j = slot_seq ex_fmt ?sb k \<longrightarrow> k \<le> j"
    "fst (read_supers ex_fmt ?sb) = Inr ()"
    "s_bdev ?sb (slot_blkno ex_fmt k) = Inr (super (s_fs_info (snd (read_supers ex_fmt ?sb))))"
    "last (s_events (snd (read_supers ex_fmt ?sb))) = Info_using (int k) (slot_seq ex_fmt ?sb k)"
    unfolding v by blast
  from k(1,2) s have "k = 0" by auto
  with k blk s show ?thesis by simp
qed

subsection \<open>Advancing the dirty superblock\<close>

lemma slot_blkno_eq_iff:
  assumes "a \<le> n" "b \<le> n" "n \<le> 2 ^ 64" "0 < a" "0 < b"
  shows "slot_blkno fmt a = slot_blkno fmt b \<longleftrightarrow> a = b"
proof
  assume "slot_blkno fmt a = slot_blkno fmt b"
  then have "(of_nat a :: u64) = of_nat b"
    by (simp add: slot_blkno_def)
  then have "a mod 2 ^ 64 = b mod 2 ^ 64"
    by (simp add: word_of_nat_eq_iff take_bit_eq_mod)
  moreover have "a mod 2 ^ 64 = (if a = 2 ^ 64 then 0 else a)"
    using assms by auto
  moreover have "b mod 2 ^ 64 = (if b = 2 ^ 64 then 0 else b)"
    using assms by auto
  ultimately show "a = b"
    using assms by (auto split: if_splits)
next
  assume "a = b"
  then show "slot_blkno fmt a = slot_blkno fmt b" by simp
qed

lemma advance_dirty_super_fields:
  "stable_super (s_fs_info (scoutfs_advance_dirty_super fmt sb)) = super (s_fs_info sb)"
  "seq (hdr (super (s_fs_info (scoutfs_advance_dirty_super fmt sb))))
     = seq (hdr (super (s_fs_info sb))) + 1"
  "blkno (hdr (super (s_fs_info (scoutfs_advance_dirty_super fmt sb)))) =
     (if blkno (hdr (super (s_fs_info sb))) + 1 = slot_blkno fmt (SCOUTFS_SUPER_NR fmt)
      then slot_blkno fmt 0 else blkno (hdr (super (s_fs_info sb))) + 1)"
  "s_bdev (scoutfs_advance_dirty_super fmt sb) = s_bdev sb"
  "super_id (super (s_fs_info (scoutfs_advance_dirty_super fmt sb))) = super_id (super (s_fs_info sb))"
  "total_blocks (super (s_fs_info (scoutfs_advance_dirty_super fmt sb)))
     = total_blocks (super (s_fs_info sb))"
  "uuid (super (s_fs_info (scoutfs_advance_dirty_super fmt sb))) = uuid (super (s_fs_info sb))"
  by (simp_all add: scoutfs_advance_dirty_super_def Let_def emit_def slot_blkno_def)

text \<open>
  C2 (advance). For a ring of at least two slots (whose block numbers fit 64 bits),
  \<open>scoutfs_advance_dirty_super\<close> copies the current superblock into the stable one, moves
  the current block number from slot \<open>k\<close> to slot \<open>(k + 1) mod SCOUTFS_SUPER_NR\<close>, adds 1
  to the current sequence number (in 64 bits), leaves the device and the other fields
  alone, and afterwards the current block number differs from the stable one.
\<close>

theorem advance_dirty_super_rotates:
  assumes "2 \<le> SCOUTFS_SUPER_NR fmt" "SCOUTFS_SUPER_NR fmt \<le> 2 ^ 64"
  shows "stable_super (s_fs_info (scoutfs_advance_dirty_super fmt sb)) = super (s_fs_info sb) \<and>
         (\<forall>k < SCOUTFS_SUPER_NR fmt.
            blkno (hdr (super (s_fs_info sb))) = slot_blkno fmt k \<longrightarrow>
            blkno (hdr (super (s_fs_info (scoutfs_advance_dirty_super fmt sb))))
              = slot_blkno fmt ((k + 1) mod SCOUTFS_SUPER_NR fmt)) \<and>
         seq (hdr (super (s_fs_info (scoutfs_advance_dirty_super fmt sb))))
           = seq (hdr (super (s_fs_info sb))) + 1 \<and>
         (seq (hdr (super (s_fs_info sb))) \<noteq> - 1 \<longrightarrow>
            unat (seq (hdr (super (s_fs_info (scoutfs_advance_dirty_super fmt sb)))))
              = unat (seq (hdr (super (s_fs_info sb)))) + 1) \<and>
         s_bdev (scoutfs_advance_dirty_super fmt sb) = s_bdev sb \<and>
         super_id (super (s_fs_info (scoutfs_advance_dirty_super fmt sb)))
           = super_id (super (s_fs_info sb)) \<and>
         total_blocks (super (s_fs_info (scoutfs_advance_dirty_super fmt sb)))
           = total_blocks (super (s_fs_info sb)) \<and>
         uuid (super (s_fs_info (scoutfs_advance_dirty_super fmt sb)))
           = uuid (super (s_fs_info sb)) \<and>
         blkno (hdr (super (s_fs_info (scoutfs_advance_dirty_super fmt sb))))
           \<noteq> blkno (hdr (stable_super (s_fs_info (scoutfs_advance_dirty_super fmt sb))))"
proof -
  let ?n = "SCOUTFS_SUPER_NR fmt"
  let ?b = "blkno (hdr (super (s_fs_info sb)))"
  let ?b' = "blkno (hdr (super (s_fs_info (scoutfs_advance_dirty_super fmt sb))))"
  have ring: "?b' = slot_blkno fmt ((k + 1) mod ?n)" if k: "k < ?n" "?b = slot_blkno fmt k" for k
  proof -
    have s: "?b + 1 = slot_blkno fmt (k + 1)"
      by (simp add: k(2) slot_blkno_def)
    have "slot_blkno fmt (k + 1) = slot_blkno fmt ?n \<longleftrightarrow> k + 1 = ?n"
      using k(1) assms by (intro slot_blkno_eq_iff[where n = ?n]) simp_all
    then show ?thesis
      using k(1) by (auto simp: advance_dirty_super_fields(3) s)
  qed
  have ne: "?b' \<noteq> ?b"
  proof (cases "?b + 1 = slot_blkno fmt ?n")
    case True
    have "slot_blkno fmt 0 \<noteq> ?b"
    proof
      assume "slot_blkno fmt 0 = ?b"
      with True have "slot_blkno fmt 1 = slot_blkno fmt ?n"
        by (simp add: slot_blkno_def)
      moreover have "slot_blkno fmt 1 = slot_blkno fmt ?n \<longleftrightarrow> 1 = ?n"
        using assms by (intro slot_blkno_eq_iff[where n = ?n]) simp_all
      ultimately show False using assms(1) by simp
    qed
    with True show ?thesis by (simp add: advance_dirty_super_fields(3))
  next
    case False
    then show ?thesis by (simp add: advance_dirty_super_fields(3))
  qed
  have sq: "seq (hdr (super (s_fs_info sb))) \<noteq> - 1 \<longrightarrow>
            unat (seq (hdr (super (s_fs_info (scoutfs_advance_dirty_super fmt sb)))))
              = unat (seq (hdr (super (s_fs_info sb)))) + 1"
    by (simp add: advance_dirty_super_fields(2) unatSuc add.commute eq_neg_iff_add_eq_0)
  from ring ne sq show ?thesis
    by (simp add: advance_dirty_super_fields)
qed

text \<open>From the last slot (block 17, sequence 8) to the first (block 16, sequence 9).\<close>

theorem advance_dirty_super_rotates_witness:
  "blkno (hdr (super (s_fs_info (scoutfs_advance_dirty_super ex_fmt
      ((ex_sb (\<lambda>b. Inl EIO))\<lparr>s_fs_info := \<lparr>super = ex_super 17 8 100,
                                            stable_super = ex_super 16 7 100\<rparr>\<rparr>))))) = 16 \<and>
   seq (hdr (super (s_fs_info (scoutfs_advance_dirty_super ex_fmt
      ((ex_sb (\<lambda>b. Inl EIO))\<lparr>s_fs_info := \<lparr>super = ex_super 17 8 100,
                                            stable_super = ex_super 16 7 100\<rparr>\<rparr>))))) = 9 \<and>
   stable_super (s_fs_info (scoutfs_advance_dirty_super ex_fmt
      ((ex_sb (\<lambda>b. Inl EIO))\<lparr>s_fs_info := \<lparr>super = ex_super 17 8 100,
                                            stable_super = ex_super 16 7 100\<rparr>\<rparr>))) = ex_super 17 8 100"
proof -
  let ?sb = "(ex_sb (\<lambda>b. Inl EIO))\<lparr>s_fs_info := \<lparr>super = ex_super 17 8 100,
                                            stable_super = ex_super 16 7 100\<rparr>\<rparr>"
  have n: "2 \<le> SCOUTFS_SUPER_NR ex_fmt" "SCOUTFS_SUPER_NR ex_fmt \<le> 2 ^ 64"
    by (simp_all add: ex_fmt_def)
  have k: "(1::nat) < SCOUTFS_SUPER_NR ex_fmt" "blkno (hdr (super (s_fs_info ?sb))) = slot_blkno ex_fmt 1"
    by (simp_all add: super_eval)
  note t = advance_dirty_super_rotates[OF n, of ?sb]
  note t1 = t[THEN conjunct1]
    and t2 = t[THEN conjunct2, THEN conjunct1, THEN spec, of 1, THEN mp, OF k(1), THEN mp, OF k(2)]
    and t3 = t[THEN conjunct2, THEN conjunct2, THEN conjunct1]
  from t1 t2 t3 show ?thesis
    by (simp add: super_eval)
qed

section \<open>Statistics (super.c, src/unnamed/part_000)\<close>

text \<open>The fields of \<open>struct kstatfs\<close> that \<open>scoutfs_statfs\<close> fills.\<close>

record kstatfs =
  f_type :: int
  f_bsize :: int
  f_blocks :: u64
  f_bfree :: u64
  f_bavail :: u64
  f_files :: u64
  f_ffree :: u64
  f_fsid :: "u32 \<times> u32"
  f_namelen :: int
  f_frsize :: int

text \<open>
  \<open>le32_to_cpu(uuid[k])\<close> for the \<open>__le32\<close> view of the 16 uuid bytes: the four bytes from
  \<open>4 * k\<close> on, least significant first.
\<close>

definition le32_to_cpu_at :: "u8 list \<Rightarrow> nat \<Rightarrow> u32" where
  "le32_to_cpu_at bs k =
     ucast (bs ! (4 * k)) OR push_bit 8 (ucast (bs ! (4 * k + 1))) OR
     push_bit 16 (ucast (bs ! (4 * k + 2))) OR push_bit 24 (ucast (bs ! (4 * k + 3)))"

text \<open>
  \<open>scoutfs_statfs\<close>. The allocator's \<open>scoutfs_buddy_bfree\<close> (an error or the count of free
  blocks) and the inode layer's \<open>scoutfs_last_ino\<close> are parameters.
\<close>

definition scoutfs_statfs ::
  "format \<Rightarrow> (super_block \<Rightarrow> errno + u64) \<Rightarrow> (super_block \<Rightarrow> u64) \<Rightarrow>
   super_block \<Rightarrow> kstatfs \<Rightarrow> errno + kstatfs" where
  "scoutfs_statfs fmt scoutfs_buddy_bfree scoutfs_last_ino sb kst =
     (let sbi = s_fs_info sb;
          sblk = super sbi;
          uuid32 = le32_to_cpu_at (uuid sblk)
      in case scoutfs_buddy_bfree sb of
           Inl ret \<Rightarrow> Inl ret
         | Inr bfree \<Rightarrow>
             (let kst = kst\<lparr>f_bfree := bfree\<rparr>;
                  kst = kst\<lparr>f_type := SCOUTFS_SUPER_MAGIC fmt\<rparr>;
                  kst = kst\<lparr>f_bsize := SCOUTFS_BLOCK_SIZE fmt\<rparr>;
                  kst = kst\<lparr>f_blocks := total_blocks sblk\<rparr>;
                  kst = kst\<lparr>f_bavail := f_bfree kst\<rparr>;
                  kst = kst\<lparr>f_ffree := f_bfree kst * 17\<rparr>;
                  kst = kst\<lparr>f_files := f_ffree kst + scoutfs_last_ino sb\<rparr>;
                  kst = kst\<lparr>f_fsid := (uuid32 0 XOR uuid32 1, uuid32 2 XOR uuid32 3)\<rparr>;
                  kst = kst\<lparr>f_namelen := SCOUTFS_NAME_LEN fmt\<rparr>;
                  kst = kst\<lparr>f_frsize := SCOUTFS_BLOCK_SIZE fmt\<rparr>
              in Inr kst))"

lemma le32_to_cpu_at_byte:
  "j < 4 \<Longrightarrow> (ucast (drop_bit (8 * j) (le32_to_cpu_at bs k)) :: u8) = bs ! (4 * k + j)"
proof -
  assume "j < 4"
  then consider "j = 0" | "j = 1" | "j = 2" | "j = 3" by linarith
  then show ?thesis
  proof cases
    case 1
    then show ?thesis
      unfolding le32_to_cpu_at_def
      by (intro bit_word_eqI) (auto simp: bit_simps dest: bit_imp_le_length)
  next
    case 2
    then show ?thesis
      unfolding le32_to_cpu_at_def
      by (intro bit_word_eqI) (auto simp: bit_simps dest: bit_imp_le_length)
  next
    case 3
    then show ?thesis
      unfolding le32_to_cpu_at_def
      by (intro bit_word_eqI) (auto simp: bit_simps dest: bit_imp_le_length)
  next
    case 4
    then show ?thesis
      unfolding le32_to_cpu_at_def
      by (intro bit_word_eqI) (auto simp: bit_simps dest: bit_imp_le_length)
  qed
qed

lemma ucast_drop_bit_xor:
  "(ucast (drop_bit n (x XOR y :: u32)) :: u8) = ucast (drop_bit n x) XOR ucast (drop_bit n y)"
  by (intro bit_word_eqI) (auto simp: bit_simps)

text \<open>
  C9 (statistics). When the free-block query succeeds with \<open>bfree\<close>, \<open>scoutfs_statfs\<close>
  succeeds, \<open>f_ffree\<close> is \<open>bfree * 17\<close> and \<open>f_files\<close> is \<open>f_ffree\<close> plus the last inode
  number, in 64-bit arithmetic, which is the exact product and sum whenever they fit 64
  bits. The two halves of \<open>f_fsid\<close> are the XOR of uuid words 0 and 1 and of words 2 and 3,
  read little-endian: byte \<open>j\<close> of the first half is uuid byte \<open>j\<close> XOR uuid byte \<open>4 + j\<close>,
  byte \<open>j\<close> of the second is uuid byte \<open>8 + j\<close> XOR uuid byte \<open>12 + j\<close>.
\<close>

theorem scoutfs_statfs_estimates:
  assumes "scoutfs_buddy_bfree sb = Inr bfree"
  shows "\<exists>kst'. scoutfs_statfs fmt scoutfs_buddy_bfree scoutfs_last_ino sb kst = Inr kst' \<and>
           f_bfree kst' = bfree \<and>
           f_ffree kst' = bfree * 17 \<and>
           f_files kst' = f_ffree kst' + scoutfs_last_ino sb \<and>
           (unat bfree * 17 + unat (scoutfs_last_ino sb) < 2 ^ 64 \<longrightarrow>
              unat (f_ffree kst') = unat bfree * 17 \<and>
              unat (f_files kst') = unat bfree * 17 + unat (scoutfs_last_ino sb)) \<and>
           fst (f_fsid kst') = le32_to_cpu_at (uuid (super (s_fs_info sb))) 0
                               XOR le32_to_cpu_at (uuid (super (s_fs_info sb))) 1 \<and>
           snd (f_fsid kst') = le32_to_cpu_at (uuid (super (s_fs_info sb))) 2
                               XOR le32_to_cpu_at (uuid (super (s_fs_info sb))) 3 \<and>
           (\<forall>j < 4.
              (ucast (drop_bit (8 * j) (fst (f_fsid kst'))) :: u8)
                = uuid (super (s_fs_info sb)) ! j XOR uuid (super (s_fs_info sb)) ! (4 + j) \<and>
              (ucast (drop_bit (8 * j) (snd (f_fsid kst'))) :: u8)
                = uuid (super (s_fs_info sb)) ! (8 + j) XOR uuid (super (s_fs_info sb)) ! (12 + j))"
proof -
  let ?u = "uuid (super (s_fs_info sb))"
  define kst' where "kst' = kst\<lparr>f_bfree := bfree, f_type := SCOUTFS_SUPER_MAGIC fmt,
      f_bsize := SCOUTFS_BLOCK_SIZE fmt, f_blocks := total_blocks (super (s_fs_info sb)),
      f_bavail := bfree, f_ffree := bfree * 17, f_files := bfree * 17 + scoutfs_last_ino sb,
      f_fsid := (le32_to_cpu_at ?u 0 XOR le32_to_cpu_at ?u 1,
                 le32_to_cpu_at ?u 2 XOR le32_to_cpu_at ?u 3),
      f_namelen := SCOUTFS_NAME_LEN fmt, f_frsize := SCOUTFS_BLOCK_SIZE fmt\<rparr>"
  have res: "scoutfs_statfs fmt scoutfs_buddy_bfree scoutfs_last_ino sb kst = Inr kst'"
    using assms by (simp add: scoutfs_statfs_def Let_def kst'_def)
  have num: "unat (bfree * 17) = unat bfree * 17 \<and>
             unat (bfree * 17 + scoutfs_last_ino sb) = unat bfree * 17 + unat (scoutfs_last_ino sb)"
    if "unat bfree * 17 + unat (scoutfs_last_ino sb) < 2 ^ 64"
  proof -
    from that have m: "unat (bfree * 17) = unat bfree * 17"
      by (simp add: unat_word_ariths)
    from that m have "unat (bfree * 17 + scoutfs_last_ino sb) = unat (bfree * 17) + unat (scoutfs_last_ino sb)"
      by (simp add: unat_word_ariths)
    with m show ?thesis by simp
  qed
  have bytes: "(ucast (drop_bit (8 * j) (le32_to_cpu_at ?u a XOR le32_to_cpu_at ?u b)) :: u8)
      = ?u ! (4 * a + j) XOR ?u ! (4 * b + j)" if "j < 4" for j a b
    by (simp only: ucast_drop_bit_xor le32_to_cpu_at_byte[OF that])
  have b0: "\<forall>j < 4.
              (ucast (drop_bit (8 * j) (fst (f_fsid kst'))) :: u8) = ?u ! j XOR ?u ! (4 + j) \<and>
              (ucast (drop_bit (8 * j) (snd (f_fsid kst'))) :: u8) = ?u ! (8 + j) XOR ?u ! (12 + j)"
    using bytes[of _ 0 1] bytes[of _ 2 3] by (simp add: kst'_def)
  from res num b0 show ?thesis
    by (intro exI[of _ kst']) (simp add: kst'_def)
qed

text \<open>1000 free blocks and last inode 42.\<close>

definition ex_kst :: kstatfs where
  "ex_kst = \<lparr>f_type = 0, f_bsize = 0, f_blocks = 0, f_bfree = 0, f_bavail = 0, f_files = 0,
             f_ffree = 0, f_fsid = (0, 0), f_namelen = 0, f_frsize = 0\<rparr>"

theorem scoutfs_statfs_estimates_witness:
  "\<exists>kst'. scoutfs_statfs ex_fmt (\<lambda>sb. Inr 1000) (\<lambda>sb. 42)
            ((ex_sb (\<lambda>b. Inl EIO))\<lparr>s_fs_info := \<lparr>super = ex_super 17 8 100,
                                                  stable_super = ex_super 16 7 100\<rparr>\<rparr>) ex_kst
          = Inr kst' \<and>
     f_ffree kst' = 17000 \<and> f_files kst' = 17042 \<and>
     f_fsid kst' = (0x44332211, 0xf00f0ff0)"
proof -
  let ?sb = "(ex_sb (\<lambda>b. Inl EIO))\<lparr>s_fs_info := \<lparr>super = ex_super 17 8 100,
                                                  stable_super = ex_super 16 7 100\<rparr>\<rparr>"
  have a: "(\<lambda>sb :: super_block. Inr 1000 :: errno + u64) ?sb = Inr 1000"
    by simp
  from scoutfs_statfs_estimates[of "\<lambda>sb. Inr 1000" ?sb 1000 ex_fmt "\<lambda>sb. 42" ex_kst, OF a]
  obtain kst' where k: "scoutfs_statfs ex_fmt (\<lambda>sb. Inr 1000) (\<lambda>sb. 42) ?sb ex_kst = Inr kst'"
    "f_ffree kst' = 1000 * 17" "f_files kst' = f_ffree kst' + 42"
    "fst (f_fsid kst') = le32_to_cpu_at (uuid (super (s_fs_info ?sb))) 0
                               XOR le32_to_cpu_at (uuid (super (s_fs_info ?sb))) 1"
    "snd (f_fsid kst') = le32_to_cpu_at (uuid (super (s_fs_info ?sb))) 2
                               XOR le32_to_cpu_at (uuid (super (s_fs_info ?sb))) 3"
    by blast
  have "f_fsid kst' = (0x44332211, 0xf00f0ff0)"
    using k(4,5) by (simp add: prod_eq_iff le32_to_cpu_at_def ex_sb_def ex_super_def)
  with k(1,2,3) show ?thesis by simp
qed

end
